theory Spec2Isabelle
  imports Main
begin

section \<open>The inline-markup parser of \<^verbatim>\<open>client_cpp/src/posts/models.hh\<close>\<close>

subsection \<open>Results of effectful code\<close>

text \<open>
  The C++ mutates a \<^verbatim>\<open>TextState\<close> and the node tree it points into. The model passes
  the state explicitly. Two things can go wrong in the source and are values here:
  \<^item> undefined behaviour of the standard containers (\<^verbatim>\<open>pop_back()\<close> or \<^verbatim>\<open>back()\<close> of an
    empty vector, a pointer that no longer names a node) is \<open>Inl\<close> of an \<open>error\<close>;
  \<^item> a loop that never ends is \<open>None\<close>.
\<close>

datatype error =
  PopEmpty        \<comment> \<open>\<^verbatim>\<open>parents.pop_back()\<close> on an empty vector\<close>
| NoParent        \<comment> \<open>\<^verbatim>\<open>parents.back()\<close> on an empty vector\<close>
| Dangling        \<comment> \<open>a stack entry that names no node of the tree\<close>

type_synonym 's result = "(error + 's) option"

definition bind_res :: "error + 'a \<Rightarrow> ('a \<Rightarrow> error + 'b) \<Rightarrow> error + 'b" where
  "bind_res m f = (case m of Inl e \<Rightarrow> Inl e | Inr x \<Rightarrow> f x)"

subsection \<open>\<^verbatim>\<open>Post::parse_string\<close>\<close>

text \<open>
  \<^verbatim>\<open>std::string_view::find(sep)\<close>: the least position at which \<open>sep\<close> occurs in
  \<open>frag\<close>, or \<^verbatim>\<open>npos\<close> (here \<open>None\<close>). The empty separator is found at position 0 of
  every fragment, the empty one included.
\<close>

fun find_str :: "string \<Rightarrow> string \<Rightarrow> nat option" where
  "find_str [] sep = (if sep = [] then Some 0 else None)"
| "find_str (c # cs) sep =
     (if take (length sep) (c # cs) = sep then Some 0
      else map_option Suc (find_str cs sep))"

text \<open>
  \<^verbatim>\<open>
  while (1) {
      const size_t i = frag.find(sep);
      if (i != -1) {
          filler(frag.substr(0, i));
          frag = frag.substr(i + sep.size());
          on_match();
      } else {
          filler(frag);
          break;
      }
  }
  \<close>
  The loop does not end for the empty separator (the fragment never shrinks), so the
  function is partial: \<open>None\<close> stands for a run that never returns. \<open>filler\<close> and
  \<open>on_match\<close> are the two callables; they act on the state \<open>'s\<close>.
\<close>

partial_function (option) parse_string ::
  "string \<Rightarrow> string \<Rightarrow> (string \<Rightarrow> 's \<Rightarrow> 's result) \<Rightarrow> ('s \<Rightarrow> 's result) \<Rightarrow> 's \<Rightarrow> 's result"
where
  "parse_string frag sep filler on_match st =
     (case find_str frag sep of
        Some i \<Rightarrow>
          (case filler (take i frag) st of
             None \<Rightarrow> None
           | Some (Inl e) \<Rightarrow> Some (Inl e)
           | Some (Inr st1) \<Rightarrow>
               (case on_match st1 of
                  None \<Rightarrow> None
                | Some (Inl e) \<Rightarrow> Some (Inl e)
                | Some (Inr st2) \<Rightarrow>
                    parse_string (drop (i + length sep) frag) sep filler on_match st2))
      | None \<Rightarrow> filler frag st)"

declare parse_string.simps [code]

subsection \<open>The node tree\<close>

text \<open>
  Modelled from the spec: \<^verbatim>\<open>brunhild::Node\<close> (\<^verbatim>\<open>brunhild/view.hh\<close> is included by the
  source but is not part of it). A node has a tag name, an attribute mapping and an
  ordered sequence of children; the source also builds a node from a tag and a text
  (\<^verbatim>\<open>{ "span", s }\<close>), which is the field \<open>inner_html\<close>.
\<close>

datatype Node =
  Node (tag: string) (attrs: "(string \<times> string) list") (inner_html: string)
    (children: "Node list")

text \<open>\<^verbatim>\<open>{ "del" }\<close>: a node of a tag alone; \<^verbatim>\<open>{ "span", s }\<close>: a tag and a text.\<close>

definition elem :: "string \<Rightarrow> Node" where
  "elem t = Node t [] [] []"

definition text_elem :: "string \<Rightarrow> string \<Rightarrow> Node" where
  "text_elem t s = Node t [] s []"

text \<open>
  \<^verbatim>\<open>std::vector<Node*> parents\<close> holds pointers into the tree that is being built. A
  pointer is modelled by the address of its node in the tree: the child indices on the
  way from the root (the root is \<open>[]\<close>). \<open>deref\<close> reads the node a pointer names,
  \<open>push_back\<close> is \<^verbatim>\<open>p->children.push_back(c)\<close>.
\<close>

type_synonym node_ptr = "nat list"

fun deref :: "Node \<Rightarrow> node_ptr \<Rightarrow> Node option" where
  "deref n [] = Some n"
| "deref n (k # p) = (if k < length (children n) then deref (children n ! k) p else None)"

fun push_back :: "node_ptr \<Rightarrow> Node \<Rightarrow> Node \<Rightarrow> Node" where
  "push_back [] c n = Node (tag n) (attrs n) (inner_html n) (children n @ [c])"
| "push_back (k # p) c n =
     (if k < length (children n)
      then Node (tag n) (attrs n) (inner_html n)
             ((children n)[k := push_back p c (children n ! k)])
      else n)"

subsection \<open>\<^verbatim>\<open>TextState\<close>\<close>

text \<open>
  The fields of \<^verbatim>\<open>class TextState\<close>, in the order of the source. The two \<^verbatim>\<open>int\<close>
  counters are not written by any function modelled here.
\<close>

record TextState =
  spoiler :: bool
  quote :: bool
  code :: bool
  bold :: bool
  italic :: bool
  have_syncwatch :: bool
  successive_newlines :: int
  dice_index :: int
  parents :: "node_ptr list"

text \<open>
  The state of a render pass: the \<^verbatim>\<open>TextState\<close> of the post, and the tree its
  \<open>parents\<close> point into (owned by the caller of \<^verbatim>\<open>reset\<close>).
\<close>

record render_state = TextState +
  tree :: Node

text \<open>
  Modelled from the spec: \<^verbatim>\<open>TextState::reset\<close> is declared in the source and defined
  elsewhere. It clears all flags and counters, empties the insertion-point stack and
  pushes the root as the sole entry.
\<close>

definition reset :: "Node \<Rightarrow> render_state" where
  "reset root =
     \<lparr>spoiler = False, quote = False, code = False, bold = False, italic = False,
      have_syncwatch = False, successive_newlines = 0, dice_index = 0,
      parents = [[]], tree = root\<rparr>"

text \<open>
  Modelled from the spec: \<^verbatim>\<open>TextState::append\<close> is declared in the source and defined
  elsewhere. It inserts the node as the last child of the current top-of-stack insertion
  point; if \<open>descend\<close> is true it also pushes the node itself as the new top-of-stack.
  With an empty stack there is no insertion point, and a stack entry that names no node
  cannot be written through: both are errors of the model.
\<close>

definition append_node :: "Node \<Rightarrow> bool \<Rightarrow> render_state \<Rightarrow> error + render_state" where
  "append_node n descend st =
     (if parents st = [] then Inl NoParent
      else
        let p = last (parents st) in
        case deref (tree st) p of
          None \<Rightarrow> Inl Dangling
        | Some par \<Rightarrow>
            Inr (st\<lparr>parents :=
                       (if descend then parents st @ [p @ [length (children par)]]
                        else parents st),
                     tree := push_back p n (tree st)\<rparr>))"

text \<open>
  \<^verbatim>\<open>void ascend() { parents.pop_back(); }\<close>
  There is no check in the source. \<^verbatim>\<open>pop_back()\<close> of a vector with one entry leaves
  the empty vector; of an empty vector it is undefined.
\<close>

definition ascend :: "'a TextState_scheme \<Rightarrow> error + 'a TextState_scheme" where
  "ascend st =
     (if parents st = [] then Inl PopEmpty
      else Inr (st\<lparr>parents := butlast (parents st)\<rparr>))"

subsection \<open>The four toggles\<close>

text \<open>The \<open>on_match\<close> callable of \<^verbatim>\<open>parse_italics\<close>.\<close>

definition italic_toggle :: "render_state \<Rightarrow> error + render_state" where
  "italic_toggle st =
     bind_res (if italic st then ascend st else append_node (elem ''i'') True st)
       (\<lambda>st. Inr (st\<lparr>italic := \<not> italic st\<rparr>))"

text \<open>The \<open>on_match\<close> callable of \<^verbatim>\<open>parse_bolds\<close>.\<close>

definition bold_toggle :: "render_state \<Rightarrow> error + render_state" where
  "bold_toggle st =
     bind_res (if italic st then ascend st else Inr st) (\<lambda>st.
     bind_res (if bold st then ascend st else append_node (elem ''b'') True st) (\<lambda>st.
     bind_res (if italic st then append_node (elem ''i'') True st else Inr st) (\<lambda>st.
     Inr (st\<lparr>bold := \<not> bold st\<rparr>))))"

text \<open>The \<open>on_match\<close> callable of \<^verbatim>\<open>parse_spoilers\<close>.\<close>

definition spoiler_toggle :: "render_state \<Rightarrow> error + render_state" where
  "spoiler_toggle st =
     bind_res (if italic st then ascend st else Inr st) (\<lambda>st.
     bind_res (if bold st then ascend st else Inr st) (\<lambda>st.
     bind_res (if spoiler st then ascend st else append_node (elem ''del'') True st) (\<lambda>st.
     bind_res (if bold st then append_node (elem ''b'') True st else Inr st) (\<lambda>st.
     bind_res (if italic st then append_node (elem ''i'') True st else Inr st) (\<lambda>st.
     Inr (st\<lparr>spoiler := \<not> spoiler st\<rparr>))))))"

text \<open>The \<open>on_match\<close> callable of \<^verbatim>\<open>parse_code\<close>: \<^verbatim>\<open>state.code = !state.code\<close>.\<close>

definition code_toggle :: "'a TextState_scheme \<Rightarrow> error + 'a TextState_scheme" where
  "code_toggle st = Inr (st\<lparr>code := \<not> code st\<rparr>)"

subsection \<open>The formatting pipeline\<close>

text \<open>
  \<open>fn\<close> is the callable every scanner hands the text outside its delimiters to, at the
  end \<^verbatim>\<open>parse_italics\<close>. It is a parameter of the source (\<^verbatim>\<open>template <class F>\<close>).
\<close>

definition parse_italics ::
  "string \<Rightarrow> (string \<Rightarrow> render_state \<Rightarrow> render_state result) \<Rightarrow> render_state \<Rightarrow> render_state result"
where
  "parse_italics frag fn st =
     parse_string frag ''~~'' fn (\<lambda>st. Some (italic_toggle st)) st"

definition parse_bolds ::
  "string \<Rightarrow> (string \<Rightarrow> render_state \<Rightarrow> render_state result) \<Rightarrow> render_state \<Rightarrow> render_state result"
where
  "parse_bolds frag fn st =
     parse_string frag ''__'' (\<lambda>frag. parse_italics frag fn) (\<lambda>st. Some (bold_toggle st)) st"

definition parse_spoilers ::
  "string \<Rightarrow> (string \<Rightarrow> render_state \<Rightarrow> render_state result) \<Rightarrow> render_state \<Rightarrow> render_state result"
where
  "parse_spoilers frag fn st =
     parse_string frag ''**'' (\<lambda>frag. parse_bolds frag fn) (\<lambda>st. Some (spoiler_toggle st)) st"

text \<open>
  \<^verbatim>\<open>while (frag.size() && frag[0] == '>') { frag = frag.substr(1); }\<close>
\<close>

fun strip_quotes :: "string \<Rightarrow> string" where
  "strip_quotes [] = []"
| "strip_quotes (c # cs) = (if c = CHR ''>'' then strip_quotes cs else c # cs)"

text \<open>
  The \<open>filler\<close> callable of \<^verbatim>\<open>parse_code\<close>.
  \<^verbatim>\<open>
  if (state.code) {
      size_t num_quotes = 0;
      while (frag.size() && frag[0] == '>') { frag = frag.substr(1); }
      if (num_quotes) {
          std::string s;
          s.reserve(4 * num_quotes);
          for (int i = 0; i <= num_quotes; i++) { s += "&gt;"; }
          state.append({ "span", s });
      }
      highlight_syntax(frag);
  } else {
      parse_spoilers(frag, fn);
  }
  \<close>
  \<open>num_quotes\<close> is never written after its initialisation. \<^verbatim>\<open>highlight_syntax\<close> is
  declared in the source and defined elsewhere: it is the parameter \<open>highlight_syntax\<close>.
\<close>

definition code_filler ::
  "(string \<Rightarrow> render_state \<Rightarrow> render_state result) \<Rightarrow>
   (string \<Rightarrow> render_state \<Rightarrow> render_state result) \<Rightarrow>
   string \<Rightarrow> render_state \<Rightarrow> render_state result"
where
  "code_filler highlight_syntax fn frag st =
     (if code st then
        let num_quotes = (0::nat);
            frag' = strip_quotes frag
        in case (if num_quotes \<noteq> 0
                 then append_node
                        (text_elem ''span'' (concat (replicate (num_quotes + 1) ''&gt;'')))
                        False st
                 else Inr st) of
             Inl e \<Rightarrow> Some (Inl e)
           | Inr st1 \<Rightarrow> highlight_syntax frag' st1
      else parse_spoilers frag fn st)"

definition parse_code ::
  "(string \<Rightarrow> render_state \<Rightarrow> render_state result) \<Rightarrow>
   string \<Rightarrow> (string \<Rightarrow> render_state \<Rightarrow> render_state result) \<Rightarrow>
   render_state \<Rightarrow> render_state result"
where
  "parse_code highlight_syntax frag fn st =
     parse_string frag ''``'' (code_filler highlight_syntax fn) (\<lambda>st. Some (code_toggle st)) st"

section \<open>Notions of the specification\<close>

subsection \<open>Splitting a fragment at a delimiter\<close>

text \<open>Sequencing of two steps: an error or a run without end of the first is the result.\<close>

definition then_do :: "'s result \<Rightarrow> ('s \<Rightarrow> 't result) \<Rightarrow> 't result" where
  "then_do m f = (case m of None \<Rightarrow> None | Some (Inl e) \<Rightarrow> Some (Inl e) | Some (Inr s) \<Rightarrow> f s)"

text \<open>
  The pieces of a fragment split at the occurrences of a non-empty delimiter, scanned
  from the left: the text before the first occurrence, then the pieces of the text after
  it. An occurrence that overlaps an earlier one is not one (\<open>***\<close> holds one \<open>**\<close>).
\<close>

function pieces :: "string \<Rightarrow> string \<Rightarrow> string list" where
  "pieces sep frag =
     (if sep = [] then [frag]
      else case find_str frag sep of
             None \<Rightarrow> [frag]
           | Some i \<Rightarrow> take i frag # pieces sep (drop (i + length sep) frag))"
  by pat_completeness auto
termination
proof (relation "measure (\<lambda>(sep, frag). length frag)")
  show "wf (measure (\<lambda>(sep, frag). length frag))" by simp
next
  fix sep frag :: string and i :: nat
  assume sep: "sep \<noteq> []" and f: "find_str frag sep = Some i"
  from f have "i + length sep \<le> length frag"
  proof (induction frag arbitrary: i)
    case Nil
    then show ?case by (simp split: if_splits)
  next
    case (Cons c cs)
    show ?case
    proof (cases "take (length sep) (c # cs) = sep")
      case True
      from arg_cong[OF True, of length] have "length sep \<le> length (c # cs)" by simp
      with True Cons.prems show ?thesis by simp
    next
      case False
      with Cons.prems obtain j where "find_str cs sep = Some j" "i = Suc j" by auto
      with Cons.IH show ?thesis by simp
    qed
  qed
  with sep show "((sep, drop (i + length sep) frag), (sep, frag)) \<in> measure (\<lambda>(sep, frag). length frag)"
    by (cases sep) auto
qed

text \<open>The number of occurrences of a non-empty delimiter, counted by the same scan.\<close>

function count_sep :: "string \<Rightarrow> string \<Rightarrow> nat" where
  "count_sep sep frag =
     (if sep = [] then 0
      else case find_str frag sep of
             None \<Rightarrow> 0
           | Some i \<Rightarrow> Suc (count_sep sep (drop (i + length sep) frag)))"
  by pat_completeness auto
termination
proof (relation "measure (\<lambda>(sep, frag). length frag)")
  show "wf (measure (\<lambda>(sep, frag). length frag))" by simp
next
  fix sep frag :: string and i :: nat
  assume sep: "sep \<noteq> []" and f: "find_str frag sep = Some i"
  from f have "i + length sep \<le> length frag"
  proof (induction frag arbitrary: i)
    case Nil
    then show ?case by (simp split: if_splits)
  next
    case (Cons c cs)
    show ?case
    proof (cases "take (length sep) (c # cs) = sep")
      case True
      from arg_cong[OF True, of length] have "length sep \<le> length (c # cs)" by simp
      with True Cons.prems show ?thesis by simp
    next
      case False
      with Cons.prems obtain j where "find_str cs sep = Some j" "i = Suc j" by auto
      with Cons.IH show ?thesis by simp
    qed
  qed
  with sep show "((sep, drop (i + length sep) frag), (sep, frag)) \<in> measure (\<lambda>(sep, frag). length frag)"
    by (cases sep) auto
qed

text \<open>The pieces put together again, the delimiter between two neighbours.\<close>

fun join_sep :: "string \<Rightarrow> string list \<Rightarrow> string" where
  "join_sep sep [] = []"
| "join_sep sep [p] = p"
| "join_sep sep (p # q # ps) = p @ sep @ join_sep sep (q # ps)"

text \<open>
  The scan as the specification words it: the filler on every piece from left to right,
  the toggle once between two neighbouring pieces.
\<close>

fun run_pieces ::
  "(string \<Rightarrow> 's \<Rightarrow> 's result) \<Rightarrow> ('s \<Rightarrow> 's result) \<Rightarrow> string list \<Rightarrow> 's \<Rightarrow> 's result"
where
  "run_pieces filler on_match [] st = Some (Inr st)"
| "run_pieces filler on_match [p] st = filler p st"
| "run_pieces filler on_match (p # q # ps) st =
     then_do (filler p st) (\<lambda>st1. then_do (on_match st1) (run_pieces filler on_match (q # ps)))"

text \<open>
  Two callables that only record that they were invoked, and with what: the state of
  the scan is then the list of the invocations so far.
\<close>

datatype call = Filler string | Toggle

definition log_filler :: "string \<Rightarrow> call list \<Rightarrow> call list result" where
  "log_filler p tr = Some (Inr (tr @ [Filler p]))"

definition log_toggle :: "call list \<Rightarrow> call list result" where
  "log_toggle tr = Some (Inr (tr @ [Toggle]))"

fun filler_args :: "call list \<Rightarrow> string list" where
  "filler_args [] = []"
| "filler_args (Filler p # cs) = p # filler_args cs"
| "filler_args (Toggle # cs) = filler_args cs"

fun toggle_count :: "call list \<Rightarrow> nat" where
  "toggle_count [] = 0"
| "toggle_count (Filler p # cs) = toggle_count cs"
| "toggle_count (Toggle # cs) = Suc (toggle_count cs)"

fun calls :: "string list \<Rightarrow> call list" where
  "calls [] = []"
| "calls [p] = [Filler p]"
| "calls (p # q # ps) = Filler p # Toggle # calls (q # ps)"

subsection \<open>Nesting of the formatting elements\<close>

text \<open>The tags from the root of the tree down to the node a pointer names.\<close>

fun path_tags :: "Node \<Rightarrow> node_ptr \<Rightarrow> string list" where
  "path_tags n [] = [tag n]"
| "path_tags n (k # p) =
     tag n # (if k < length (children n) then path_tags (children n ! k) p else [])"

text \<open>
  The elements the toggles create are \<open>del\<close> (spoiler), \<open>b\<close> (bold) and \<open>i\<close> (italic).
  Their levels follow the order of the pipeline. The source has no element for a code
  span: what stands for code in the tree is what \<^verbatim>\<open>highlight_syntax\<close> appends, so the
  tags of code elements are a parameter \<open>is_code\<close>. Every other tag has level 0.
\<close>

definition formatting :: "string \<Rightarrow> bool" where
  "formatting t \<longleftrightarrow> t = ''del'' \<or> t = ''b'' \<or> t = ''i''"

definition level :: "(string \<Rightarrow> bool) \<Rightarrow> string \<Rightarrow> nat" where
  "level is_code t =
     (if t = ''del'' then 1 else if t = ''b'' then 2 else if t = ''i'' then 3
      else if is_code t then 4 else 0)"

text \<open>
  \<open>clash C a d\<close>: an element of tag \<open>d\<close> must not stand below an element of tag \<open>a\<close>.
  This holds when \<open>d\<close> is a formatting element and \<open>a\<close> is of the same or a later
  level: \<open>b\<close> or \<open>del\<close> below \<open>i\<close>, \<open>del\<close> below \<open>b\<close>, any of the three below a code
  element, and a formatting element below one of its own tag.
\<close>

definition clash :: "(string \<Rightarrow> bool) \<Rightarrow> string \<Rightarrow> string \<Rightarrow> bool" where
  "clash C a d \<longleftrightarrow> formatting d \<and> level C d \<le> level C a"

text \<open>No node of the tree clashes with one of its ancestors (\<open>anc\<close>: the tags above).\<close>

fun nested_ok :: "(string \<Rightarrow> bool) \<Rightarrow> string list \<Rightarrow> Node \<Rightarrow> bool" where
  "nested_ok C anc (Node t a h cs) =
     ((\<forall>a \<in> set anc. \<not> clash C a t) \<and> (\<forall>c \<in> set cs. nested_ok C (t # anc) c))"

text \<open>
  The same, carried as one number: \<open>m\<close> is the highest level among the ancestors, and a
  formatting element must exceed it.
\<close>

fun canon :: "(string \<Rightarrow> bool) \<Rightarrow> nat \<Rightarrow> Node \<Rightarrow> bool" where
  "canon C m (Node t a h cs) =
     ((formatting t \<longrightarrow> m < level C t) \<and> (\<forall>c \<in> set cs. canon C (max m (level C t)) c))"

definition lvl_max :: "(string \<Rightarrow> bool) \<Rightarrow> nat \<Rightarrow> string list \<Rightarrow> nat" where
  "lvl_max C m ts = fold (\<lambda>t m. max m (level C t)) ts m"

subsection \<open>The insertion-point stack and the flags\<close>

text \<open>The elements that are open according to the flags, outermost first.\<close>

definition open_tags :: "'a TextState_scheme \<Rightarrow> string list" where
  "open_tags st =
     (if spoiler st then [''del''] else []) @ (if bold st then [''b''] else []) @
     (if italic st then [''i''] else [])"

definition open_count :: "'a TextState_scheme \<Rightarrow> nat" where
  "open_count st =
     (if spoiler st then 1 else 0) + (if bold st then 1 else 0) + (if italic st then 1 else 0)"

text \<open>
  \<open>chain r p qs ts\<close>: the pointers \<open>qs\<close> descend from \<open>p\<close> one child at a time, and
  name nodes of the tree \<open>r\<close> with the tags \<open>ts\<close>.
\<close>

fun chain :: "Node \<Rightarrow> node_ptr \<Rightarrow> node_ptr list \<Rightarrow> string list \<Rightarrow> bool" where
  "chain r p [] [] = True"
| "chain r p (q # qs) (t # ts) =
     (q \<noteq> [] \<and> butlast q = p \<and> (case deref r q of None \<Rightarrow> False | Some n \<Rightarrow> tag n = t)
      \<and> chain r q qs ts)"
| "chain r p _ _ = False"

text \<open>
  \<open>wfs C n ts st\<close>: the stack is \<open>n\<close> entries of the caller (the root, and whatever it
  opened), the last of which names a node with no formatting or code element on its
  way from the root, followed by a chain of open elements with the tags \<open>ts\<close>; and no
  node of the tree clashes with an ancestor.
\<close>

definition wfs :: "(string \<Rightarrow> bool) \<Rightarrow> nat \<Rightarrow> string list \<Rightarrow> render_state \<Rightarrow> bool" where
  "wfs C n ts st \<longleftrightarrow>
     0 < n \<and> length (parents st) = n + length ts \<and>
     deref (tree st) (last (take n (parents st))) \<noteq> None \<and>
     (\<forall>t \<in> set (path_tags (tree st) (last (take n (parents st)))). level C t = 0) \<and>
     chain (tree st) (last (take n (parents st))) (drop n (parents st)) ts \<and>
     canon C 0 (tree st)"

text \<open>The invariant of a render pass: the open chain is the one the flags tell.\<close>

definition Inv :: "(string \<Rightarrow> bool) \<Rightarrow> nat \<Rightarrow> render_state \<Rightarrow> bool" where
  "Inv C n st \<longleftrightarrow> wfs C n (open_tags st) st"

text \<open>Every field of \<^verbatim>\<open>TextState\<close> but the stack.\<close>

definition flags ::
  "'a TextState_scheme \<Rightarrow> bool \<times> bool \<times> bool \<times> bool \<times> bool \<times> bool \<times> int \<times> int"
where
  "flags st = (spoiler st, quote st, code st, bold st, italic st, have_syncwatch st,
               successive_newlines st, dice_index st)"

text \<open>
  What the theorems on the pipeline ask of the callables it is given (\<open>fn\<close> and
  \<^verbatim>\<open>highlight_syntax\<close>): on a state that satisfies the invariant they return, keep the
  invariant and leave the four formatting flags as they found them.
\<close>

definition keeps ::
  "(string \<Rightarrow> bool) \<Rightarrow> nat \<Rightarrow> (string \<Rightarrow> render_state \<Rightarrow> render_state result) \<Rightarrow> bool"
where
  "keeps C n fn \<longleftrightarrow>
     (\<forall>frag st. Inv C n st \<longrightarrow>
        (\<exists>st'. fn frag st = Some (Inr st') \<and> Inv C n st' \<and> code st' = code st \<and>
               spoiler st' = spoiler st \<and> bold st' = bold st \<and> italic st' = italic st))"

text \<open>
  A callable of that kind, to run the pipeline on concrete text: it appends the text as
  a leaf of the given tag.
\<close>

definition text_filler :: "string \<Rightarrow> string \<Rightarrow> render_state \<Rightarrow> render_state result" where
  "text_filler tg frag st = Some (append_node (text_elem tg frag) False st)"

subsection \<open>Sequences of toggles\<close>

datatype fmt_level = Code | Spoiler | Bold | Italic

fun toggle_of :: "fmt_level \<Rightarrow> render_state \<Rightarrow> error + render_state" where
  "toggle_of Code st = code_toggle st"
| "toggle_of Spoiler st = spoiler_toggle st"
| "toggle_of Bold st = bold_toggle st"
| "toggle_of Italic st = italic_toggle st"

fun level_flag :: "fmt_level \<Rightarrow> render_state \<Rightarrow> bool" where
  "level_flag Code st = code st"
| "level_flag Spoiler st = spoiler st"
| "level_flag Bold st = bold st"
| "level_flag Italic st = italic st"

fun run_toggles :: "fmt_level list \<Rightarrow> render_state \<Rightarrow> error + render_state" where
  "run_toggles [] st = Inr st"
| "run_toggles (l # ls) st = bind_res (toggle_of l st) (run_toggles ls)"

text \<open>
  \<open>moved k s s'\<close>: from \<open>s\<close> to \<open>s'\<close> the stack has grown by \<open>k\<close> entries (shrunk, for
  a negative \<open>k\<close>) and no other field of \<^verbatim>\<open>TextState\<close> has changed.
\<close>

definition moved :: "int \<Rightarrow> render_state \<Rightarrow> render_state \<Rightarrow> bool" where
  "moved k s s' \<longleftrightarrow>
     flags s' = flags s \<and> int (length (parents s')) = int (length (parents s)) + k"

text \<open>
  One choice of the tags that stand for code in the tree, to run the theorems on
  concrete input.
\<close>

definition code_tag :: "string \<Rightarrow> bool" where
  "code_tag t \<longleftrightarrow> t = ''code''"

subsection \<open>Counting the elements of a tag\<close>

text \<open>The number of nodes of a tree that carry the tag \<open>t\<close>.\<close>

fun count_tag :: "string \<Rightarrow> Node \<Rightarrow> nat" where
  "count_tag t (Node tg a h cs) = (if tg = t then 1 else 0) + sum_list (map (count_tag t) cs)"

text \<open>
  \<open>opens b k\<close>: of \<open>k\<close> successive toggles of one level, the number that open an
  element, when the flag of the level is \<open>b\<close> before the first.
\<close>

definition opens :: "bool \<Rightarrow> nat \<Rightarrow> nat" where
  "opens b k = (if b then k div 2 else (k + 1) div 2)"

text \<open>
  \<open>grown t k s s'\<close>: from \<open>s\<close> to \<open>s'\<close> the tree has gained \<open>k\<close> nodes of the tag
  \<open>t\<close>, and no field of \<^verbatim>\<open>TextState\<close> but the stack has changed.
\<close>

definition grown :: "string \<Rightarrow> nat \<Rightarrow> render_state \<Rightarrow> render_state \<Rightarrow> bool" where
  "grown t k s s' \<longleftrightarrow>
     flags s' = flags s \<and> count_tag t (tree s') = count_tag t (tree s) + k"

text \<open>
  A callable that adds no \<open>del\<close>, \<open>b\<close> or \<open>i\<close> element to the tree: the elements of
  these tags are then the ones the toggles have created.
\<close>

definition adds_no_formatting ::
  "(string \<Rightarrow> render_state \<Rightarrow> render_state result) \<Rightarrow> bool"
where
  "adds_no_formatting fn \<longleftrightarrow>
     (\<forall>frag st st' t. fn frag st = Some (Inr st') \<and> formatting t \<longrightarrow>
        count_tag t (tree st') = count_tag t (tree st))"

subsection \<open>Code spans\<close>

text \<open>
  The pieces of a fragment split at the code delimiter, run in turn: \<open>b\<close> tells whether
  the first piece lies inside a code span. A piece inside a code span goes to
  \<^verbatim>\<open>highlight_syntax\<close> (less its leading quote markers) and to nothing else; a piece
  outside goes to the spoiler scanner. Between two pieces the code flag changes sides.
\<close>

fun run_code_pieces ::
  "(string \<Rightarrow> render_state \<Rightarrow> render_state result) \<Rightarrow>
   (string \<Rightarrow> render_state \<Rightarrow> render_state result) \<Rightarrow>
   bool \<Rightarrow> string list \<Rightarrow> render_state \<Rightarrow> render_state result"
where
  "run_code_pieces hl fn b [] st = Some (Inr st)"
| "run_code_pieces hl fn b [p] st =
     (if b then hl (strip_quotes p) st else parse_spoilers p fn st)"
| "run_code_pieces hl fn b (p # q # ps) st =
     then_do (if b then hl (strip_quotes p) st else parse_spoilers p fn st)
       (\<lambda>st1. run_code_pieces hl fn (\<not> b) (q # ps) (st1\<lparr>code := \<not> b\<rparr>))"

text \<open>The element a toggle creates when it opens its level; the code toggle creates none.\<close>

fun level_elem :: "fmt_level \<Rightarrow> string option" where
  "level_elem Code = None"
| "level_elem Spoiler = Some ''del''"
| "level_elem Bold = Some ''b''"
| "level_elem Italic = Some ''i''"

text \<open>
  The nesting with code outermost, then spoiler, bold and italic: here an element
  clashes with an ancestor that this order puts further inside.
\<close>

definition code_outermost_level :: "(string \<Rightarrow> bool) \<Rightarrow> string \<Rightarrow> nat" where
  "code_outermost_level is_code t =
     (if t = ''del'' then 2 else if t = ''b'' then 3 else if t = ''i'' then 4
      else if is_code t then 1 else 0)"

definition code_outermost_clash :: "(string \<Rightarrow> bool) \<Rightarrow> string \<Rightarrow> string \<Rightarrow> bool" where
  "code_outermost_clash C a d \<longleftrightarrow>
     code_outermost_level C d \<noteq> 0 \<and> code_outermost_level C d < code_outermost_level C a"

fun code_outermost_ok :: "(string \<Rightarrow> bool) \<Rightarrow> string list \<Rightarrow> Node \<Rightarrow> bool" where
  "code_outermost_ok C anc (Node t a h cs) =
     ((\<forall>a \<in> set anc. \<not> code_outermost_clash C a t) \<and>
      (\<forall>c \<in> set cs. code_outermost_ok C (t # anc) c))"

section \<open>Lemmas\<close>

declare pieces.simps [simp del] count_sep.simps [simp del]

subsection \<open>The scan\<close>

lemma find_str_SomeD:
  "find_str frag sep = Some i \<Longrightarrow> i + length sep \<le> length frag \<and> take (length sep) (drop i frag) = sep"
proof (induction frag arbitrary: i)
  case Nil
  then show ?case by (simp split: if_splits)
next
  case (Cons c cs)
  show ?case
  proof (cases "take (length sep) (c # cs) = sep")
    case True
    with Cons.prems have "i = 0" by simp
    moreover from arg_cong[OF True, of length] have "length sep \<le> length (c # cs)"
      by simp
    ultimately show ?thesis using True by simp
  next
    case False
    with Cons.prems obtain j where j: "find_str cs sep = Some j" "i = Suc j" by auto
    from Cons.IH[OF j(1)] j(2) show ?thesis by simp
  qed
qed

lemma find_str_shrinks:
  "sep \<noteq> [] \<Longrightarrow> find_str frag sep = Some i \<Longrightarrow> length (drop (i + length sep) frag) < length frag"
  using find_str_SomeD[of frag sep i] by (cases sep) auto



lemma pieces_not_Nil: "pieces sep frag \<noteq> []"
  by (subst pieces.simps) (auto split: option.splits)

lemma parse_string_pieces:
  "sep \<noteq> [] \<Longrightarrow> parse_string frag sep filler on_match st = run_pieces filler on_match (pieces sep frag) st"
proof (induction "length frag" arbitrary: frag st rule: less_induct)
  case less
  show ?case
  proof (cases "find_str frag sep")
    case None
    then show ?thesis using less.prems
      by (subst parse_string.simps, subst pieces.simps) simp
  next
    case (Some i)
    let ?rest = "drop (i + length sep) frag"
    have sh: "length ?rest < length frag" using find_str_shrinks[OF less.prems Some] .
    have IH: "\<And>s. parse_string ?rest sep filler on_match s = run_pieces filler on_match (pieces sep ?rest) s"
      using less.hyps[OF sh less.prems] .
    obtain q qs where q: "pieces sep ?rest = q # qs"
      using pieces_not_Nil[of sep ?rest] by (cases "pieces sep ?rest") auto
    have p: "pieces sep frag = take i frag # q # qs"
      using Some less.prems q by (subst pieces.simps) simp
    show ?thesis
      unfolding p
      by (subst parse_string.simps)
         (auto simp: Some IH q then_do_def split: option.splits sum.splits)
  qed
qed

lemma parse_string_inv:
  assumes sep: "sep \<noteq> []"
    and filler: "\<And>f s. P s \<Longrightarrow> \<exists>s'. filler f s = Some (Inr s') \<and> P s' \<and> g s' = g s"
    and toggle: "\<And>s. P s \<Longrightarrow> \<exists>s'. on_match s = Some (Inr s') \<and> P s' \<and> g s' = (\<not> g s)"
  shows "P st \<Longrightarrow> \<exists>st'. parse_string frag sep filler on_match st = Some (Inr st') \<and> P st' \<and>
           g st' = (g st \<noteq> odd (count_sep sep frag))"
proof (induction "length frag" arbitrary: frag st rule: less_induct)
  case less
  show ?case
  proof (cases "find_str frag sep")
    case None
    from filler[OF less.prems, of frag] obtain s' where
      "filler frag st = Some (Inr s')" "P s'" "g s' = g st" by blast
    then show ?thesis using None sep
      by (subst parse_string.simps, subst count_sep.simps) simp
  next
    case (Some i)
    let ?rest = "drop (i + length sep) frag"
    have sh: "length ?rest < length frag" using find_str_shrinks[OF sep Some] .
    from filler[OF less.prems, of "take i frag"] obtain s1 where
      s1: "filler (take i frag) st = Some (Inr s1)" "P s1" "g s1 = g st" by blast
    from toggle[OF s1(2)] obtain s2 where
      s2: "on_match s1 = Some (Inr s2)" "P s2" "g s2 = (\<not> g s1)" by blast
    from less.hyps[OF sh s2(2)] obtain st' where
      st': "parse_string ?rest sep filler on_match s2 = Some (Inr st')" "P st'"
        "g st' = (g s2 \<noteq> odd (count_sep sep ?rest))" by blast
    have c: "count_sep sep frag = Suc (count_sep sep ?rest)"
      using Some sep by (subst count_sep.simps) simp
    have "parse_string frag sep filler on_match st = Some (Inr st')"
      using Some s1(1) s2(1) st'(1) by (subst parse_string.simps) simp
    then show ?thesis using st'(2,3) s1(3) s2(3) c by auto
  qed
qed

subsection \<open>Pointers into the tree\<close>

lemma deref_push_back_old:
  "deref r q = Some x \<Longrightarrow> \<exists>y. deref (push_back p c r) q = Some y \<and> tag y = tag x"
proof (induction q arbitrary: r p x)
  case Nil
  then show ?case by (cases p) auto
next
  case (Cons k q)
  from Cons.prems have k: "k < length (children r)" and d: "deref (children r ! k) q = Some x"
    by (auto split: if_splits)
  show ?case
  proof (cases p)
    case Nil
    then show ?thesis using k d by (simp add: nth_append)
  next
    case (Cons j p')
    show ?thesis
    proof (cases "j < length (children r)")
      case True
      show ?thesis
      proof (cases "k = j")
        case True
        with Cons.IH[OF d, of p'] k show ?thesis using Cons by simp
      next
        case False
        then show ?thesis using k d Cons True by simp
      qed
    next
      case False
      then show ?thesis using Cons Cons.prems by simp
    qed
  qed
qed

lemma path_tags_push_back_old:
  "deref r q = Some x \<Longrightarrow> path_tags (push_back p c r) q = path_tags r q"
proof (induction q arbitrary: r p x)
  case Nil
  then show ?case by (cases p) auto
next
  case (Cons k q)
  from Cons.prems have k: "k < length (children r)" and d: "deref (children r ! k) q = Some x"
    by (auto split: if_splits)
  show ?case
  proof (cases p)
    case Nil
    then show ?thesis using k d by (simp add: nth_append)
  next
    case (Cons j p')
    show ?thesis
    proof (cases "j < length (children r)")
      case True
      show ?thesis
      proof (cases "k = j")
        case True
        with Cons.IH[OF d, of p'] k show ?thesis using Cons by simp
      next
        case False
        then show ?thesis using k d Cons True by simp
      qed
    next
      case False
      then show ?thesis using Cons Cons.prems by simp
    qed
  qed
qed

lemma deref_push_back_new:
  "deref r p = Some par \<Longrightarrow> deref (push_back p c r) (p @ [length (children par)]) = Some c"
  by (induction p arbitrary: r) (auto split: if_splits)

lemma path_tags_snoc:
  "deref r (p @ [k]) = Some x \<Longrightarrow> path_tags r (p @ [k]) = path_tags r p @ [tag x]"
  by (induction p arbitrary: r) (auto split: if_splits)

lemma canon_push_back:
  "canon C m r \<Longrightarrow> deref r p = Some par \<Longrightarrow> canon C (lvl_max C m (path_tags r p)) c
   \<Longrightarrow> canon C m (push_back p c r)"
proof (induction p arbitrary: r m)
  case Nil
  then show ?case by (cases r) (auto simp: lvl_max_def)
next
  case (Cons k p)
  obtain t a h cs where r: "r = Node t a h cs" by (cases r)
  from Cons.prems(2) r have k: "k < length cs" and d: "deref (cs ! k) p = Some par"
    by (auto split: if_splits)
  from Cons.prems(1) r k have ck: "canon C (max m (level C t)) (cs ! k)" by simp
  from Cons.prems(3) r k have cc: "canon C (lvl_max C (max m (level C t)) (path_tags (cs ! k) p)) c"
    by (simp add: lvl_max_def)
  have new: "canon C (max m (level C t)) (push_back p c (cs ! k))"
    using Cons.IH[OF ck d cc] .
  have "\<forall>x \<in> set (cs[k := push_back p c (cs ! k)]). canon C (max m (level C t)) x"
  proof
    fix x assume "x \<in> set (cs[k := push_back p c (cs ! k)])"
    then have "x = push_back p c (cs ! k) \<or> x \<in> set cs"
      using set_update_subset_insert by fastforce
    then show "canon C (max m (level C t)) x" using new Cons.prems(1) r by auto
  qed
  then show ?case using Cons.prems(1) r k by simp
qed

subsection \<open>Chains of open elements\<close>

lemma chain_length: "chain r p qs ts \<Longrightarrow> length qs = length ts"
  by (induction r p qs ts rule: chain.induct) auto

lemma chain_snoc:
  "chain r p qs ts \<Longrightarrow> q \<noteq> [] \<Longrightarrow> butlast q = last (p # qs) \<Longrightarrow> deref r q = Some x \<Longrightarrow>
   chain r p (qs @ [q]) (ts @ [tag x])"
  by (induction r p qs ts rule: chain.induct) auto

lemma chain_butlast:
  "chain r p (qs @ [q]) (ts @ [t]) \<Longrightarrow> chain r p qs ts"
proof (induction qs arbitrary: p ts)
  case Nil
  from chain_length[OF Nil] have "ts = []" by simp
  then show ?case by simp
next
  case (Cons q' qs)
  from chain_length[OF Cons.prems] obtain t' ts' where ts: "ts = t' # ts'"
    by (cases ts) auto
  with Cons.prems have "chain r q' (qs @ [q]) (ts' @ [t])" by simp
  from Cons.IH[OF this] Cons.prems ts show ?case by simp
qed

lemma chain_last_deref:
  "chain r p qs ts \<Longrightarrow> deref r p \<noteq> None \<Longrightarrow> deref r (last (p # qs)) \<noteq> None"
  by (induction r p qs ts rule: chain.induct) (auto split: option.splits)

lemma chain_path_tags:
  "chain r p qs ts \<Longrightarrow> path_tags r (last (p # qs)) = path_tags r p @ ts"
proof (induction r p qs ts rule: chain.induct)
  case (2 r p q qs t ts)
  then obtain x where x: "deref r q = Some x" "tag x = t" by (auto split: option.splits)
  from 2 have q: "q = p @ [last q]" by (metis append_butlast_last_id chain.simps(2))
  have "path_tags r q = path_tags r p @ [t]"
    using path_tags_snoc[of r p "last q" x] q x by simp
  then show ?case using 2 by simp
qed auto

lemma chain_push_back:
  "chain r p qs ts \<Longrightarrow> chain (push_back p' c r) p qs ts"
proof (induction r p qs ts rule: chain.induct)
  case (2 r p q qs t ts)
  then obtain x where x: "deref r q = Some x" "tag x = t" by (auto split: option.splits)
  from deref_push_back_old[OF x(1), of p' c] x(2) 2 show ?case by auto
qed auto

lemma canon_mono: "canon C m r \<Longrightarrow> m' \<le> m \<Longrightarrow> canon C m' r"
proof (induction r arbitrary: m m')
  case (Node t a h cs)
  have "\<forall>c \<in> set cs. canon C (max m' (level C t)) c"
  proof
    fix c assume c: "c \<in> set cs"
    with Node.prems have "canon C (max m (level C t)) c" by simp
    moreover have "max m' (level C t) \<le> max m (level C t)" using Node.prems(2) by simp
    ultimately show "canon C (max m' (level C t)) c" using Node.IH[OF c] by blast
  qed
  moreover have "formatting t \<longrightarrow> m' < level C t" using Node.prems by auto
  ultimately show ?case by simp
qed

lemma lvl_max_zero: "\<forall>t \<in> set ts. level C t = 0 \<Longrightarrow> lvl_max C m ts = m"
  by (induction ts arbitrary: m) (auto simp: lvl_max_def)

lemma lvl_max_append: "lvl_max C m (ts @ us) = lvl_max C (lvl_max C m ts) us"
  by (simp add: lvl_max_def)

lemma lvl_max_bound: "m < b \<Longrightarrow> \<forall>t \<in> set ts. level C t < b \<Longrightarrow> lvl_max C m ts < b"
  by (induction ts arbitrary: m) (auto simp: lvl_max_def)

subsection \<open>The stack under ascend and append\<close>

lemma wfs_alt:
  "wfs C n ts st \<longleftrightarrow>
     (\<exists>base qs. parents st = base @ qs \<and> length base = n \<and> base \<noteq> [] \<and>
        deref (tree st) (last base) \<noteq> None \<and>
        (\<forall>t \<in> set (path_tags (tree st) (last base)). level C t = 0) \<and>
        chain (tree st) (last base) qs ts \<and> canon C 0 (tree st))"
  (is "?L \<longleftrightarrow> ?R")
proof
  assume L: ?L
  let ?ps = "parents st"
  have "?ps = take n ?ps @ drop n ?ps" by simp
  moreover have "length (take n ?ps) = n" using L by (simp add: wfs_def)
  moreover have "take n ?ps \<noteq> []" using L by (auto simp: wfs_def)
  ultimately show ?R using L unfolding wfs_def by blast
next
  assume ?R
  then obtain base qs where b: "parents st = base @ qs" "length base = n" "base \<noteq> []"
    "deref (tree st) (last base) \<noteq> None"
    "\<forall>t \<in> set (path_tags (tree st) (last base)). level C t = 0"
    "chain (tree st) (last base) qs ts" "canon C 0 (tree st)" by blast
  from b(2,3) have "0 < n" by auto
  with chain_length[OF b(6)] b show ?L by (simp add: wfs_def)
qed

lemma wfs_ascend:
  assumes "wfs C n (ts @ [t]) st"
  shows "\<exists>st'. ascend st = Inr st' \<and> wfs C n ts st' \<and> flags st' = flags st \<and> tree st' = tree st"
proof -
  from assms obtain base qs' where b: "parents st = base @ qs'" "length base = n" "base \<noteq> []"
    "deref (tree st) (last base) \<noteq> None"
    "\<forall>t \<in> set (path_tags (tree st) (last base)). level C t = 0"
    "chain (tree st) (last base) qs' (ts @ [t])" "canon C 0 (tree st)"
    unfolding wfs_alt by blast
  from chain_length[OF b(6)] have "qs' \<noteq> []" by auto
  then obtain qs q where qs: "qs' = qs @ [q]" by (cases qs' rule: rev_cases) auto
  have ch: "chain (tree st) (last base) qs ts" using b(6) qs chain_butlast by blast
  let ?st' = "st\<lparr>parents := base @ qs\<rparr>"
  have a: "ascend st = Inr ?st'"
    using b(1) qs by (simp add: ascend_def butlast_append)
  have "wfs C n ts ?st'"
    unfolding wfs_alt using b ch by auto
  then show ?thesis using a by (auto simp: flags_def)
qed

lemma wfs_append_node:
  assumes w: "wfs C n ts st" and c: "canon C (lvl_max C 0 ts) c"
  shows "\<exists>st'. append_node c d st = Inr st' \<and> flags st' = flags st \<and>
               wfs C n (if d then ts @ [tag c] else ts) st'"
proof -
  let ?r = "tree st"
  from w obtain base qs where b: "parents st = base @ qs" "length base = n" "base \<noteq> []"
    and bd: "deref ?r (last base) \<noteq> None"
    and bl: "\<forall>t \<in> set (path_tags ?r (last base)). level C t = 0"
    and ch: "chain ?r (last base) qs ts" and cn: "canon C 0 ?r"
    unfolding wfs_alt by blast
  let ?top = "last (parents st)"
  have top: "?top = last (last base # qs)" using b by simp
  obtain par where par: "deref ?r ?top = Some par"
    using chain_last_deref[OF ch bd] top by auto
  let ?q = "?top @ [length (children par)]"
  let ?r' = "push_back ?top c ?r"
  let ?ps' = "if d then parents st @ [?q] else parents st"
  let ?st' = "st\<lparr>parents := ?ps', tree := ?r'\<rparr>"
  have app: "append_node c d st = Inr ?st'"
    using b par by (simp add: append_node_def Let_def)
  have tags: "path_tags ?r ?top = path_tags ?r (last base) @ ts"
    using chain_path_tags[OF ch] top by simp
  have "lvl_max C 0 (path_tags ?r ?top) = lvl_max C 0 ts"
    unfolding tags lvl_max_append lvl_max_zero[OF bl] ..
  then have cn': "canon C 0 ?r'" using canon_push_back[OF cn par] c by simp
  obtain bn where bn: "deref ?r (last base) = Some bn" using bd by auto
  have bd': "deref ?r' (last base) \<noteq> None" using deref_push_back_old[OF bn, of ?top c] by auto
  have bl': "path_tags ?r' (last base) = path_tags ?r (last base)"
    using path_tags_push_back_old[OF bn] .
  have ch1: "chain ?r' (last base) qs ts" using chain_push_back[OF ch] .
  have new: "deref ?r' ?q = Some c" using deref_push_back_new[OF par] .
  have ch': "chain ?r' (last base) (qs @ [?q]) (ts @ [tag c])"
    using chain_snoc[OF ch1 _ _ new] top by simp
  have "wfs C n (if d then ts @ [tag c] else ts) ?st'"
  proof (cases d)
    case True
    have "parents ?st' = base @ (qs @ [?q])" using b True by simp
    then have "wfs C n (ts @ [tag c]) ?st'"
      unfolding wfs_alt using b(2,3) bd' bl bl' ch' cn'
      by (intro exI[of _ base] exI[of _ "qs @ [?q]"]) simp
    with True show ?thesis by simp
  next
    case False
    have "parents ?st' = base @ qs" using b False by simp
    then have "wfs C n ts ?st'"
      unfolding wfs_alt using b(2,3) bd' bl bl' ch1 cn'
      by (intro exI[of _ base] exI[of _ qs]) simp
    with False show ?thesis by simp
  qed
  then show ?thesis using app by (auto simp: flags_def)
qed

lemma bind_res_Inr [simp]: "bind_res (Inr x) f = f x"
  by (simp add: bind_res_def)

lemma bind_res_Inl [simp]: "bind_res (Inl e) f = Inl e"
  by (simp add: bind_res_def)

lemma flagsD:
  "flags a = flags b \<Longrightarrow>
     spoiler a = spoiler b \<and> bold a = bold b \<and> italic a = italic b \<and> code a = code b"
  by (simp add: flags_def)

lemma level_formatting: "formatting t \<Longrightarrow> 0 < level C t \<and> level C t < 4"
  by (auto simp: formatting_def level_def)

lemma cond_ascend:
  assumes "wfs C n (ts @ (if b then [t] else [])) st"
  shows "\<exists>st'. (if b then ascend st else Inr st) = Inr st' \<and> wfs C n ts st' \<and>
               flags st' = flags st \<and> tree st' = tree st"
proof (cases b)
  case True
  then show ?thesis using wfs_ascend[of C n ts t st] assms by simp
next
  case False
  then show ?thesis using assms by simp
qed

lemma wfs_append_elem:
  assumes "wfs C n ts st" "formatting t" "\<forall>x \<in> set ts. level C x < level C t"
  shows "\<exists>st'. append_node (elem t) True st = Inr st' \<and> wfs C n (ts @ [t]) st' \<and>
               flags st' = flags st"
proof -
  have "lvl_max C 0 ts < level C t"
    using lvl_max_bound[of 0 "level C t" ts C] level_formatting[OF assms(2), of C] assms(3)
    by simp
  then have "canon C (lvl_max C 0 ts) (elem t)" by (simp add: elem_def)
  from wfs_append_node[OF assms(1) this, of True] show ?thesis
    by (auto simp: elem_def)
qed

lemma cond_append:
  assumes "wfs C n ts st" "formatting t" "b \<Longrightarrow> \<forall>x \<in> set ts. level C x < level C t"
  shows "\<exists>st'. (if b then append_node (elem t) True st else Inr st) = Inr st' \<and>
               wfs C n (ts @ (if b then [t] else [])) st' \<and> flags st' = flags st"
proof (cases b)
  case True
  then show ?thesis using wfs_append_elem[of C n ts st t] assms by simp
next
  case False
  then show ?thesis using assms by simp
qed

lemma wfs_flag_update [simp]:
  "wfs C n ts (st\<lparr>spoiler := x\<rparr>) = wfs C n ts st"
  "wfs C n ts (st\<lparr>bold := x\<rparr>) = wfs C n ts st"
  "wfs C n ts (st\<lparr>italic := x\<rparr>) = wfs C n ts st"
  "wfs C n ts (st\<lparr>code := x\<rparr>) = wfs C n ts st"
  by (simp_all add: wfs_def)

lemma lv_del_b: "level C ''del'' < level C ''b''" "level C ''del'' < level C ''i''"
  "level C ''b'' < level C ''i''"
  by (simp_all add: level_def)

lemma fmt [simp]: "formatting ''del''" "formatting ''b''" "formatting ''i''"
  by (simp_all add: formatting_def)

subsection \<open>The toggles keep the invariant\<close>

lemma italic_toggle_Inv:
  assumes "Inv C n st"
  shows "\<exists>st'. italic_toggle st = Inr st' \<and> Inv C n st' \<and>
               flags st' = flags (st\<lparr>italic := \<not> italic st\<rparr>)"
proof -
  let ?D = "if spoiler st then [''del''] else []"
  let ?B = "if bold st then [''b''] else []"
  have w: "wfs C n ((?D @ ?B) @ (if italic st then [''i''] else [])) st"
    using assms by (simp add: Inv_def open_tags_def)
  show ?thesis
  proof (cases "italic st")
    case True
    with w wfs_ascend[of C n "?D @ ?B" "''i''" st]
    obtain s1 where s1: "ascend st = Inr s1" "wfs C n (?D @ ?B) s1" "flags s1 = flags st"
      by auto
    from flagsD[OF s1(3)] s1 True show ?thesis
      by (simp add: italic_toggle_def Inv_def open_tags_def flags_def)
  next
    case False
    with w have "wfs C n (?D @ ?B) st" by simp
    moreover have "\<forall>x \<in> set (?D @ ?B). level C x < level C ''i''"
      by (auto simp: lv_del_b)
    ultimately obtain s1 where s1: "append_node (elem ''i'') True st = Inr s1"
      "wfs C n ((?D @ ?B) @ [''i'']) s1" "flags s1 = flags st"
      using wfs_append_elem[of C n "?D @ ?B" st "''i''"] by auto
    from flagsD[OF s1(3)] s1 False show ?thesis
      by (simp add: italic_toggle_def Inv_def open_tags_def flags_def)
  qed
qed

lemma bold_toggle_Inv:
  assumes "Inv C n st"
  shows "\<exists>st'. bold_toggle st = Inr st' \<and> Inv C n st' \<and>
               flags st' = flags (st\<lparr>bold := \<not> bold st\<rparr>)"
proof -
  let ?D = "if spoiler st then [''del''] else []"
  let ?B = "if bold st then [''b''] else []"
  let ?B' = "if bold st then [] else [''b'']"
  let ?I = "if italic st then [''i''] else []"
  have w: "wfs C n ((?D @ ?B) @ ?I) st"
    using assms by (simp add: Inv_def open_tags_def)
  from cond_ascend[OF w]
  obtain s1 where s1: "(if italic st then ascend st else Inr st) = Inr s1"
    "wfs C n (?D @ ?B) s1" "flags s1 = flags st" by blast
  note f1 = flagsD[OF s1(3)]
  have "\<exists>s2. (if bold s1 then ascend s1 else append_node (elem ''b'') True s1) = Inr s2 \<and>
          wfs C n (?D @ ?B') s2 \<and> flags s2 = flags s1"
  proof (cases "bold st")
    case True
    with s1(2) wfs_ascend[of C n ?D "''b''" s1] f1 show ?thesis by auto
  next
    case False
    with s1(2) have "wfs C n ?D s1" by simp
    from wfs_append_elem[OF this, of "''b''"] False f1 show ?thesis
      by (auto simp: lv_del_b)
  qed
  then obtain s2 where s2: "(if bold s1 then ascend s1 else append_node (elem ''b'') True s1) = Inr s2"
    "wfs C n (?D @ ?B') s2" "flags s2 = flags s1" by blast
  note f2 = flagsD[OF s2(3)]
  have "italic st \<Longrightarrow> \<forall>x \<in> set (?D @ ?B'). level C x < level C ''i''"
    by (auto simp: lv_del_b)
  from cond_append[OF s2(2) _ this, of "italic s2"] f1 f2
  obtain s3 where s3: "(if italic s2 then append_node (elem ''i'') True s2 else Inr s2) = Inr s3"
    "wfs C n ((?D @ ?B') @ ?I) s3" "flags s3 = flags s2" by auto
  note f3 = flagsD[OF s3(3)]
  have "bold_toggle st = Inr (s3\<lparr>bold := \<not> bold s3\<rparr>)"
    unfolding bold_toggle_def using s1(1) s2(1) s3(1) by simp
  moreover have "Inv C n (s3\<lparr>bold := \<not> bold s3\<rparr>)"
    using s3(2) f1 f2 f3
    by (cases "spoiler st"; cases "bold st"; cases "italic st") (simp_all add: Inv_def open_tags_def)
  moreover have "flags (s3\<lparr>bold := \<not> bold s3\<rparr>) = flags (st\<lparr>bold := \<not> bold st\<rparr>)"
    using s1(3) s2(3) s3(3) by (simp add: flags_def)
  ultimately show ?thesis by blast
qed

lemma spoiler_toggle_Inv:
  assumes "Inv C n st"
  shows "\<exists>st'. spoiler_toggle st = Inr st' \<and> Inv C n st' \<and>
               flags st' = flags (st\<lparr>spoiler := \<not> spoiler st\<rparr>)"
proof -
  let ?D = "if spoiler st then [''del''] else []"
  let ?D' = "if spoiler st then [] else [''del'']"
  let ?B = "if bold st then [''b''] else []"
  let ?I = "if italic st then [''i''] else []"
  have w: "wfs C n ((?D @ ?B) @ ?I) st"
    using assms by (simp add: Inv_def open_tags_def)
  from cond_ascend[OF w]
  obtain s1 where s1: "(if italic st then ascend st else Inr st) = Inr s1"
    "wfs C n (?D @ ?B) s1" "flags s1 = flags st" by blast
  note f1 = flagsD[OF s1(3)]
  from cond_ascend[OF s1(2)] f1
  obtain s2 where s2: "(if bold s1 then ascend s1 else Inr s1) = Inr s2"
    "wfs C n ?D s2" "flags s2 = flags s1" by auto
  note f2 = flagsD[OF s2(3)]
  have "\<exists>s3. (if spoiler s2 then ascend s2 else append_node (elem ''del'') True s2) = Inr s3 \<and>
          wfs C n ?D' s3 \<and> flags s3 = flags s2"
  proof (cases "spoiler st")
    case True
    with s2(2) wfs_ascend[of C n "[]" "''del''" s2] f1 f2 show ?thesis by auto
  next
    case False
    with s2(2) have "wfs C n [] s2" by simp
    from wfs_append_elem[OF this, of "''del''"] False f1 f2 show ?thesis
      by auto
  qed
  then obtain s3 where s3: "(if spoiler s2 then ascend s2 else append_node (elem ''del'') True s2) = Inr s3"
    "wfs C n ?D' s3" "flags s3 = flags s2" by blast
  note f3 = flagsD[OF s3(3)]
  have "bold st \<Longrightarrow> \<forall>x \<in> set ?D'. level C x < level C ''b''"
    by (auto simp: lv_del_b)
  from cond_append[OF s3(2) _ this, of "bold s3"] f1 f2 f3
  obtain s4 where s4: "(if bold s3 then append_node (elem ''b'') True s3 else Inr s3) = Inr s4"
    "wfs C n (?D' @ ?B) s4" "flags s4 = flags s3" by auto
  note f4 = flagsD[OF s4(3)]
  have "italic st \<Longrightarrow> \<forall>x \<in> set (?D' @ ?B). level C x < level C ''i''"
    by (auto simp: lv_del_b)
  from cond_append[OF s4(2) _ this, of "italic s4"] f1 f2 f3 f4
  obtain s5 where s5: "(if italic s4 then append_node (elem ''i'') True s4 else Inr s4) = Inr s5"
    "wfs C n ((?D' @ ?B) @ ?I) s5" "flags s5 = flags s4" by auto
  note f5 = flagsD[OF s5(3)]
  have "spoiler_toggle st = Inr (s5\<lparr>spoiler := \<not> spoiler s5\<rparr>)"
    unfolding spoiler_toggle_def using s1(1) s2(1) s3(1) s4(1) s5(1) by simp
  moreover have "Inv C n (s5\<lparr>spoiler := \<not> spoiler s5\<rparr>)"
    using s5(2) f1 f2 f3 f4 f5
    by (cases "spoiler st"; cases "bold st"; cases "italic st") (simp_all add: Inv_def open_tags_def)
  moreover have "flags (s5\<lparr>spoiler := \<not> spoiler s5\<rparr>) = flags (st\<lparr>spoiler := \<not> spoiler st\<rparr>)"
    using s1(3) s2(3) s3(3) s4(3) s5(3) by (simp add: flags_def)
  ultimately show ?thesis by blast
qed

subsection \<open>The scanners keep the invariant\<close>

lemma parse_italics_ok:
  assumes k: "keeps C n fn" and i: "Inv C n st"
  shows "\<exists>st'. parse_italics frag fn st = Some (Inr st') \<and> Inv C n st' \<and>
           code st' = code st \<and> spoiler st' = spoiler st \<and> bold st' = bold st \<and>
           italic st' = (italic st \<noteq> odd (count_sep ''~~'' frag))"
proof -
  let ?P = "\<lambda>s. Inv C n s \<and> code s = code st \<and> spoiler s = spoiler st \<and> bold s = bold st"
  have f: "\<And>f s. ?P s \<Longrightarrow> \<exists>s'. fn f s = Some (Inr s') \<and> ?P s' \<and> italic s' = italic s"
  proof -
    fix f s assume s: "?P s"
    with k obtain s' where "fn f s = Some (Inr s')" "Inv C n s'" "code s' = code s"
      "spoiler s' = spoiler s" "bold s' = bold s" "italic s' = italic s"
      unfolding keeps_def by blast
    with s show "\<exists>s'. fn f s = Some (Inr s') \<and> ?P s' \<and> italic s' = italic s" by simp
  qed
  have t: "\<And>s. ?P s \<Longrightarrow> \<exists>s'. Some (italic_toggle s) = Some (Inr s') \<and> ?P s' \<and> italic s' = (\<not> italic s)"
  proof -
    fix s assume s: "?P s"
    then obtain s' where s': "italic_toggle s = Inr s'" "Inv C n s'"
      "flags s' = flags (s\<lparr>italic := \<not> italic s\<rparr>)" using italic_toggle_Inv by blast
    from flagsD[OF s'(3)] s s'(1,2)
    show "\<exists>s'. Some (italic_toggle s) = Some (Inr s') \<and> ?P s' \<and> italic s' = (\<not> italic s)"
      by simp
  qed
  have "?P st" using i by simp
  have "\<exists>st'. parse_string frag ''~~'' fn (\<lambda>s. Some (italic_toggle s)) st = Some (Inr st') \<and> ?P st' \<and>
           italic st' = (italic st \<noteq> odd (count_sep ''~~'' frag))"
    by (rule parse_string_inv[where P = ?P and g = italic]) (simp, fact f, fact t, fact \<open>?P st\<close>)
  then show ?thesis unfolding parse_italics_def by blast
qed

lemma parse_bolds_ok:
  assumes k: "keeps C n fn" and i: "Inv C n st"
  shows "\<exists>st'. parse_bolds frag fn st = Some (Inr st') \<and> Inv C n st' \<and>
           code st' = code st \<and> spoiler st' = spoiler st \<and>
           bold st' = (bold st \<noteq> odd (count_sep ''__'' frag))"
proof -
  let ?P = "\<lambda>s. Inv C n s \<and> code s = code st \<and> spoiler s = spoiler st"
  have f: "\<And>f s. ?P s \<Longrightarrow> \<exists>s'. parse_italics f fn s = Some (Inr s') \<and> ?P s' \<and> bold s' = bold s"
  proof -
    fix f s assume s: "?P s"
    then have "Inv C n s" by simp
    from parse_italics_ok[OF k this, of f] s
    show "\<exists>s'. parse_italics f fn s = Some (Inr s') \<and> ?P s' \<and> bold s' = bold s" by auto
  qed
  have t: "\<And>s. ?P s \<Longrightarrow> \<exists>s'. Some (bold_toggle s) = Some (Inr s') \<and> ?P s' \<and> bold s' = (\<not> bold s)"
  proof -
    fix s assume s: "?P s"
    then obtain s' where s': "bold_toggle s = Inr s'" "Inv C n s'"
      "flags s' = flags (s\<lparr>bold := \<not> bold s\<rparr>)" using bold_toggle_Inv by blast
    from flagsD[OF s'(3)] s s'(1,2)
    show "\<exists>s'. Some (bold_toggle s) = Some (Inr s') \<and> ?P s' \<and> bold s' = (\<not> bold s)"
      by simp
  qed
  have "?P st" using i by simp
  have "\<exists>st'. parse_string frag ''__'' (\<lambda>f. parse_italics f fn) (\<lambda>s. Some (bold_toggle s)) st
            = Some (Inr st') \<and> ?P st' \<and> bold st' = (bold st \<noteq> odd (count_sep ''__'' frag))"
    by (rule parse_string_inv[where P = ?P and g = bold]) (simp, fact f, fact t, fact \<open>?P st\<close>)
  then show ?thesis unfolding parse_bolds_def by blast
qed

lemma parse_spoilers_ok:
  assumes k: "keeps C n fn" and i: "Inv C n st"
  shows "\<exists>st'. parse_spoilers frag fn st = Some (Inr st') \<and> Inv C n st' \<and>
           code st' = code st \<and> spoiler st' = (spoiler st \<noteq> odd (count_sep ''**'' frag))"
proof -
  let ?P = "\<lambda>s. Inv C n s \<and> code s = code st"
  have f: "\<And>f s. ?P s \<Longrightarrow> \<exists>s'. parse_bolds f fn s = Some (Inr s') \<and> ?P s' \<and> spoiler s' = spoiler s"
  proof -
    fix f s assume s: "?P s"
    then have "Inv C n s" by simp
    from parse_bolds_ok[OF k this, of f] s
    show "\<exists>s'. parse_bolds f fn s = Some (Inr s') \<and> ?P s' \<and> spoiler s' = spoiler s" by auto
  qed
  have t: "\<And>s. ?P s \<Longrightarrow> \<exists>s'. Some (spoiler_toggle s) = Some (Inr s') \<and> ?P s' \<and> spoiler s' = (\<not> spoiler s)"
  proof -
    fix s assume s: "?P s"
    then obtain s' where s': "spoiler_toggle s = Inr s'" "Inv C n s'"
      "flags s' = flags (s\<lparr>spoiler := \<not> spoiler s\<rparr>)" using spoiler_toggle_Inv by blast
    from flagsD[OF s'(3)] s s'(1,2)
    show "\<exists>s'. Some (spoiler_toggle s) = Some (Inr s') \<and> ?P s' \<and> spoiler s' = (\<not> spoiler s)"
      by simp
  qed
  have "?P st" using i by simp
  have "\<exists>st'. parse_string frag ''**'' (\<lambda>f. parse_bolds f fn) (\<lambda>s. Some (spoiler_toggle s)) st
            = Some (Inr st') \<and> ?P st' \<and> spoiler st' = (spoiler st \<noteq> odd (count_sep ''**'' frag))"
    by (rule parse_string_inv[where P = ?P and g = spoiler]) (simp, fact f, fact t, fact \<open>?P st\<close>)
  then show ?thesis unfolding parse_spoilers_def by blast
qed

lemma code_filler_open:
  "code st \<Longrightarrow> code_filler hl fn frag st = hl (strip_quotes frag) st"
  by (simp add: code_filler_def)

lemma Inv_code_update [simp]: "Inv C n (st\<lparr>code := x\<rparr>) = Inv C n st"
  by (simp add: Inv_def open_tags_def)

lemma parse_code_ok:
  assumes k: "keeps C n fn" and h: "keeps C n hl" and i: "Inv C n st"
  shows "\<exists>st'. parse_code hl frag fn st = Some (Inr st') \<and> Inv C n st' \<and>
           code st' = (code st \<noteq> odd (count_sep ''``'' frag))"
proof -
  let ?P = "\<lambda>s. Inv C n s"
  have f: "\<And>f s. ?P s \<Longrightarrow> \<exists>s'. code_filler hl fn f s = Some (Inr s') \<and> ?P s' \<and> code s' = code s"
  proof -
    fix f s assume s: "?P s"
    show "\<exists>s'. code_filler hl fn f s = Some (Inr s') \<and> ?P s' \<and> code s' = code s"
    proof (cases "code s")
      case True
      from h s obtain s' where "hl (strip_quotes f) s = Some (Inr s')" "Inv C n s'" "code s' = code s"
        unfolding keeps_def by blast
      then show ?thesis using True by (auto simp: code_filler_open)
    next
      case False
      from parse_spoilers_ok[OF k s, of f] False show ?thesis
        by (auto simp: code_filler_def)
    qed
  qed
  have t: "\<And>s. ?P s \<Longrightarrow> \<exists>s'. Some (code_toggle s) = Some (Inr s') \<and> ?P s' \<and> code s' = (\<not> code s)"
    by (simp add: code_toggle_def)
  have "\<exists>st'. parse_string frag ''``'' (code_filler hl fn) (\<lambda>s. Some (code_toggle s)) st
            = Some (Inr st') \<and> ?P st' \<and> code st' = (code st \<noteq> odd (count_sep ''``'' frag))"
    by (rule parse_string_inv[where P = ?P and g = code]) (simp, fact f, fact t, fact i)
  then show ?thesis unfolding parse_code_def by blast
qed

lemma canon_nested_ok:
  "canon C m r \<Longrightarrow> \<forall>a \<in> set anc. level C a \<le> m \<Longrightarrow> nested_ok C anc r"
proof (induction r arbitrary: m anc)
  case (Node t a h cs)
  have 1: "\<forall>a \<in> set anc. \<not> clash C a t"
    using Node.prems by (fastforce simp: clash_def)
  have 2: "\<forall>c \<in> set cs. nested_ok C (t # anc) c"
  proof
    fix c assume c: "c \<in> set cs"
    with Node.prems have "canon C (max m (level C t)) c" by simp
    moreover have "\<forall>a \<in> set (t # anc). level C a \<le> max m (level C t)"
      using Node.prems(2) by auto
    ultimately show "nested_ok C (t # anc) c" using Node.IH[OF c] by blast
  qed
  from 1 2 show ?case by simp
qed

lemma Inv_nested_ok: "Inv C n st \<Longrightarrow> nested_ok C [] (tree st)"
  using canon_nested_ok[of C 0 "tree st" "[]"] by (simp add: Inv_def wfs_def)

lemma keeps_text_filler:
  assumes "\<not> formatting tg"
  shows "keeps C n (text_filler tg)"
  unfolding keeps_def
proof (intro allI impI)
  fix frag st assume i: "Inv C n st"
  then have w: "wfs C n (open_tags st) st" by (simp add: Inv_def)
  have "canon C (lvl_max C 0 (open_tags st)) (text_elem tg frag)"
    using assms by (simp add: text_elem_def)
  from wfs_append_node[OF w this, of False]
  obtain st' where st': "append_node (text_elem tg frag) False st = Inr st'"
    "flags st' = flags st" "wfs C n (open_tags st) st'" by auto
  from flagsD[OF st'(2)] have "open_tags st' = open_tags st" by (simp add: open_tags_def)
  with st' flagsD[OF st'(2)]
  show "\<exists>st'. text_filler tg frag st = Some (Inr st') \<and> Inv C n st' \<and> code st' = code st \<and>
          spoiler st' = spoiler st \<and> bold st' = bold st \<and> italic st' = italic st"
    by (simp add: text_filler_def Inv_def)
qed

lemma Inv_reset:
  "level C (tag r) = 0 \<Longrightarrow> canon C 0 r \<Longrightarrow> Inv C 1 (reset r)"
  by (simp add: Inv_def wfs_def reset_def open_tags_def)

subsection \<open>Pieces and occurrences\<close>

lemma then_do_Some [simp]:
  "then_do (Some (Inr s)) f = f s" "then_do (Some (Inl e)) f = Some (Inl e)" "then_do None f = None"
  by (simp_all add: then_do_def)

lemma length_pieces: "sep \<noteq> [] \<Longrightarrow> length (pieces sep frag) = count_sep sep frag + 1"
proof (induction "length frag" arbitrary: frag rule: less_induct)
  case less
  show ?case
  proof (cases "find_str frag sep")
    case None
    then show ?thesis using less.prems by (subst pieces.simps, subst count_sep.simps) simp
  next
    case (Some i)
    from less.hyps[OF find_str_shrinks[OF less.prems Some] less.prems] Some less.prems
    show ?thesis by (subst pieces.simps, subst count_sep.simps) simp
  qed
qed

lemma find_str_split:
  assumes "find_str frag sep = Some i"
  shows "frag = take i frag @ sep @ drop (i + length sep) frag"
proof -
  from find_str_SomeD[OF assms] have t: "take (length sep) (drop i frag) = sep" by simp
  have "drop i frag = take (length sep) (drop i frag) @ drop (length sep) (drop i frag)"
    by (rule append_take_drop_id[symmetric])
  also have "\<dots> = sep @ drop (i + length sep) frag" using t by (simp add: add.commute)
  finally have "drop i frag = sep @ drop (i + length sep) frag" .
  then have "take i frag @ drop i frag = take i frag @ sep @ drop (i + length sep) frag"
    by simp
  then show ?thesis by simp
qed

lemma join_pieces: "sep \<noteq> [] \<Longrightarrow> join_sep sep (pieces sep frag) = frag"
proof (induction "length frag" arbitrary: frag rule: less_induct)
  case less
  show ?case
  proof (cases "find_str frag sep")
    case None
    then show ?thesis using less.prems by (subst pieces.simps) simp
  next
    case (Some i)
    let ?rest = "drop (i + length sep) frag"
    have IH: "join_sep sep (pieces sep ?rest) = ?rest"
      using less.hyps[OF find_str_shrinks[OF less.prems Some] less.prems] .
    obtain q qs where q: "pieces sep ?rest = q # qs"
      using pieces_not_Nil[of sep ?rest] by (cases "pieces sep ?rest") auto
    have "pieces sep frag = take i frag # q # qs"
      using Some less.prems q by (subst pieces.simps) simp
    then have "join_sep sep (pieces sep frag) = take i frag @ sep @ ?rest"
      using IH q by simp
    then show ?thesis using find_str_split[OF Some] by simp
  qed
qed

lemma count_sep_bound: "count_sep sep frag * length sep \<le> length frag"
proof (induction "length frag" arbitrary: frag rule: less_induct)
  case less
  show ?case
  proof (cases "sep = []")
    case True
    then show ?thesis by simp
  next
    case False
    show ?thesis
    proof (cases "find_str frag sep")
      case None
      then show ?thesis using False by (subst count_sep.simps) simp
    next
      case (Some i)
      let ?rest = "drop (i + length sep) frag"
      have IH: "count_sep sep ?rest * length sep \<le> length ?rest"
        using less.hyps[OF find_str_shrinks[OF False Some]] .
      have c: "count_sep sep frag = Suc (count_sep sep ?rest)"
        using Some False by (subst count_sep.simps) simp
      have a: "count_sep sep ?rest * length sep \<le> length frag - (i + length sep)"
        using IH by simp
      have b: "i + length sep \<le> length frag" using find_str_SomeD[OF Some] by simp
      show ?thesis unfolding c mult_Suc using a b by linarith
    qed
  qed
qed

lemma run_pieces_log:
  "ps \<noteq> [] \<Longrightarrow> run_pieces log_filler log_toggle ps tr = Some (Inr (tr @ calls ps))"
  by (induction ps arbitrary: tr rule: calls.induct) (simp_all add: log_filler_def log_toggle_def)

lemma filler_args_calls: "filler_args (calls ps) = ps"
  by (induction ps rule: calls.induct) simp_all

lemma toggle_count_calls: "toggle_count (calls ps) = length ps - 1"
  by (induction ps rule: calls.induct) simp_all

lemma run_pieces_returns:
  assumes "\<And>f s. filler f s \<noteq> None" "\<And>s. on_match s \<noteq> None"
  shows "ps \<noteq> [] \<Longrightarrow> run_pieces filler on_match ps st \<noteq> None"
proof (induction ps arbitrary: st rule: calls.induct)
  case 1
  then show ?case by simp
next
  case (2 p)
  then show ?case using assms(1) by simp
next
  case (3 p q ps)
  show ?case
  proof (cases "filler p st")
    case None
    then show ?thesis using assms(1) by simp
  next
    case (Some r)
    show ?thesis
    proof (cases r)
      case (Inl e)
      then show ?thesis using Some by simp
    next
      case (Inr s1)
      show ?thesis
      proof (cases "on_match s1")
        case None
        then show ?thesis using assms(2) by simp
      next
        case (Some r2)
        then show ?thesis using 3 Inr \<open>filler p st = Some r\<close> by (cases r2) auto
      qed
    qed
  qed
qed

lemma find_str_take:
  "sep \<noteq> [] \<Longrightarrow> find_str frag sep = Some i \<Longrightarrow> find_str (take i frag) sep = None"
proof (induction frag arbitrary: i)
  case Nil
  then show ?case by simp
next
  case (Cons c cs)
  show ?case
  proof (cases "take (length sep) (c # cs) = sep")
    case True
    with Cons.prems show ?thesis by simp
  next
    case False
    with Cons.prems obtain j where j: "find_str cs sep = Some j" "i = Suc j" by auto
    have "take (length sep) (c # take j cs) \<noteq> sep"
    proof
      assume eq: "take (length sep) (c # take j cs) = sep"
      from arg_cong[OF eq, of length] have "length sep \<le> Suc j" by simp
      then have "take (length sep) (c # cs) = take (length sep) (take (Suc j) (c # cs))"
        by (cases "length sep") (simp_all add: min_def)
      also have "\<dots> = sep" using eq by simp
      finally show False using False by simp
    qed
    then show ?thesis using j Cons.IH[OF Cons.prems(1) j(1)] by simp
  qed
qed

lemma pieces_no_sep:
  "sep \<noteq> [] \<Longrightarrow> p \<in> set (pieces sep frag) \<Longrightarrow> find_str p sep = None"
proof (induction "length frag" arbitrary: frag rule: less_induct)
  case less
  show ?case
  proof (cases "find_str frag sep")
    case None
    then have "pieces sep frag = [frag]" using less.prems(1) by (subst pieces.simps) simp
    with less.prems None show ?thesis by simp
  next
    case (Some i)
    let ?rest = "drop (i + length sep) frag"
    have "pieces sep frag = take i frag # pieces sep ?rest"
      using Some less.prems(1) by (subst pieces.simps) simp
    with less.prems(2) have "p = take i frag \<or> p \<in> set (pieces sep ?rest)" by simp
    then show ?thesis
    proof
      assume "p = take i frag"
      then show ?thesis using find_str_take[OF less.prems(1) Some] by simp
    next
      assume "p \<in> set (pieces sep ?rest)"
      then show ?thesis
        using less.hyps[OF find_str_shrinks[OF less.prems(1) Some] less.prems(1)] by simp
    qed
  qed
qed

subsection \<open>Flags and stack depth, on every state\<close>

lemma bind_res_InrD: "bind_res m f = Inr y \<Longrightarrow> \<exists>x. m = Inr x \<and> f x = Inr y"
  by (cases m) (simp_all add: bind_res_def)

lemma ascend_moved: "ascend s = Inr s' \<Longrightarrow> moved (- 1) s s'"
  by (cases "parents s") (auto simp: ascend_def moved_def flags_def split: if_splits)

lemma append_moved:
  "append_node c d s = Inr s' \<Longrightarrow> moved (if d then 1 else 0) s s'"
  by (auto simp: append_node_def moved_def flags_def Let_def split: if_splits option.splits)

lemma moved_refl: "moved 0 s s"
  by (simp add: moved_def)

lemma moved_trans: "moved j s s1 \<Longrightarrow> moved k s1 s2 \<Longrightarrow> moved (j + k) s s2"
  by (simp add: moved_def)

lemma moved_flags:
  "moved k s s' \<Longrightarrow> spoiler s' = spoiler s \<and> bold s' = bold s \<and> italic s' = italic s \<and>
     code s' = code s \<and> flags s' = flags s"
  by (simp add: moved_def flags_def)

lemma italic_toggle_moved:
  assumes "italic_toggle st = Inr st'"
  shows "\<exists>s. moved (if italic st then - 1 else 1) st s \<and> st' = s\<lparr>italic := \<not> italic s\<rparr>"
proof -
  from bind_res_InrD[OF assms[unfolded italic_toggle_def]] obtain s1 where
    s1: "(if italic st then ascend st else append_node (elem ''i'') True st) = Inr s1"
    and r: "st' = s1\<lparr>italic := \<not> italic s1\<rparr>" by auto
  have "moved (if italic st then - 1 else 1) st s1"
    using s1 ascend_moved[of st s1] append_moved[of "elem ''i''" True st s1]
    by (auto split: if_splits)
  with r show ?thesis by blast
qed

lemma bold_toggle_moved:
  assumes "bold_toggle st = Inr st'"
  shows "\<exists>s. moved (if bold st then - 1 else 1) st s \<and> st' = s\<lparr>bold := \<not> bold s\<rparr>"
proof -
  from bind_res_InrD[OF assms[unfolded bold_toggle_def]] obtain s1 where
    s1: "(if italic st then ascend st else Inr st) = Inr s1"
    and r1: "bind_res (if bold s1 then ascend s1 else append_node (elem ''b'') True s1) (\<lambda>st.
     bind_res (if italic st then append_node (elem ''i'') True st else Inr st) (\<lambda>st.
     Inr (st\<lparr>bold := \<not> bold st\<rparr>))) = Inr st'" by auto
  from bind_res_InrD[OF r1] obtain s2 where
    s2: "(if bold s1 then ascend s1 else append_node (elem ''b'') True s1) = Inr s2"
    and r2: "bind_res (if italic s2 then append_node (elem ''i'') True s2 else Inr s2) (\<lambda>st.
     Inr (st\<lparr>bold := \<not> bold st\<rparr>)) = Inr st'" by auto
  from bind_res_InrD[OF r2] obtain s3 where
    s3: "(if italic s2 then append_node (elem ''i'') True s2 else Inr s2) = Inr s3"
    and r: "st' = s3\<lparr>bold := \<not> bold s3\<rparr>" by auto
  have m1: "moved (if italic st then - 1 else 0) st s1"
    using s1 ascend_moved[of st s1] moved_refl[of st] by (auto split: if_splits)
  note f1 = moved_flags[OF m1]
  have m2: "moved (if bold st then - 1 else 1) s1 s2"
    using s2 f1 ascend_moved[of s1 s2] append_moved[of "elem ''b''" True s1 s2]
    by (auto split: if_splits)
  note f2 = moved_flags[OF m2]
  have m3: "moved (if italic st then 1 else 0) s2 s3"
    using s3 f1 f2 append_moved[of "elem ''i''" True s2 s3] moved_refl[of s2]
    by (auto split: if_splits)
  have "moved (if bold st then - 1 else 1) st s3"
    using moved_trans[OF moved_trans[OF m1 m2] m3] by (auto split: if_splits)
  with r show ?thesis by blast
qed

lemma spoiler_toggle_moved:
  assumes "spoiler_toggle st = Inr st'"
  shows "\<exists>s. moved (if spoiler st then - 1 else 1) st s \<and> st' = s\<lparr>spoiler := \<not> spoiler s\<rparr>"
proof -
  from bind_res_InrD[OF assms[unfolded spoiler_toggle_def]] obtain s1 where
    s1: "(if italic st then ascend st else Inr st) = Inr s1"
    and r1: "bind_res (if bold s1 then ascend s1 else Inr s1) (\<lambda>st.
     bind_res (if spoiler st then ascend st else append_node (elem ''del'') True st) (\<lambda>st.
     bind_res (if bold st then append_node (elem ''b'') True st else Inr st) (\<lambda>st.
     bind_res (if italic st then append_node (elem ''i'') True st else Inr st) (\<lambda>st.
     Inr (st\<lparr>spoiler := \<not> spoiler st\<rparr>))))) = Inr st'" by auto
  from bind_res_InrD[OF r1] obtain s2 where
    s2: "(if bold s1 then ascend s1 else Inr s1) = Inr s2"
    and r2: "bind_res (if spoiler s2 then ascend s2 else append_node (elem ''del'') True s2) (\<lambda>st.
     bind_res (if bold st then append_node (elem ''b'') True st else Inr st) (\<lambda>st.
     bind_res (if italic st then append_node (elem ''i'') True st else Inr st) (\<lambda>st.
     Inr (st\<lparr>spoiler := \<not> spoiler st\<rparr>)))) = Inr st'" by auto
  from bind_res_InrD[OF r2] obtain s3 where
    s3: "(if spoiler s2 then ascend s2 else append_node (elem ''del'') True s2) = Inr s3"
    and r3: "bind_res (if bold s3 then append_node (elem ''b'') True s3 else Inr s3) (\<lambda>st.
     bind_res (if italic st then append_node (elem ''i'') True st else Inr st) (\<lambda>st.
     Inr (st\<lparr>spoiler := \<not> spoiler st\<rparr>))) = Inr st'" by auto
  from bind_res_InrD[OF r3] obtain s4 where
    s4: "(if bold s3 then append_node (elem ''b'') True s3 else Inr s3) = Inr s4"
    and r4: "bind_res (if italic s4 then append_node (elem ''i'') True s4 else Inr s4) (\<lambda>st.
     Inr (st\<lparr>spoiler := \<not> spoiler st\<rparr>)) = Inr st'" by auto
  from bind_res_InrD[OF r4] obtain s5 where
    s5: "(if italic s4 then append_node (elem ''i'') True s4 else Inr s4) = Inr s5"
    and r: "st' = s5\<lparr>spoiler := \<not> spoiler s5\<rparr>" by auto
  have m1: "moved (if italic st then - 1 else 0) st s1"
    using s1 ascend_moved[of st s1] moved_refl[of st] by (auto split: if_splits)
  note f1 = moved_flags[OF m1]
  have m2: "moved (if bold st then - 1 else 0) s1 s2"
    using s2 f1 ascend_moved[of s1 s2] moved_refl[of s1] by (auto split: if_splits)
  note f2 = moved_flags[OF m2]
  have m3: "moved (if spoiler st then - 1 else 1) s2 s3"
    using s3 f1 f2 ascend_moved[of s2 s3] append_moved[of "elem ''del''" True s2 s3]
    by (auto split: if_splits)
  note f3 = moved_flags[OF m3]
  have m4: "moved (if bold st then 1 else 0) s3 s4"
    using s4 f1 f2 f3 append_moved[of "elem ''b''" True s3 s4] moved_refl[of s3]
    by (auto split: if_splits)
  note f4 = moved_flags[OF m4]
  have m5: "moved (if italic st then 1 else 0) s4 s5"
    using s5 f1 f2 f3 f4 append_moved[of "elem ''i''" True s4 s5] moved_refl[of s4]
    by (auto split: if_splits)
  have "moved (if spoiler st then - 1 else 1) st s5"
    using moved_trans[OF moved_trans[OF moved_trans[OF moved_trans[OF m1 m2] m3] m4] m5]
    by (auto split: if_splits)
  with r show ?thesis by blast
qed

lemma toggle_depth:
  assumes "toggle_of l st = Inr st'" "length (parents st) = d + open_count st"
  shows "length (parents st') = d + open_count st'"
proof (cases l)
  case Code
  with assms show ?thesis by (auto simp: code_toggle_def open_count_def)
next
  case Spoiler
  with assms spoiler_toggle_moved[of st st'] obtain s where
    s: "moved (if spoiler st then - 1 else 1) st s" "st' = s\<lparr>spoiler := \<not> spoiler s\<rparr>" by auto
  from moved_flags[OF s(1)] s assms(2) show ?thesis
    by (auto simp: moved_def open_count_def split: if_splits)
next
  case Bold
  with assms bold_toggle_moved[of st st'] obtain s where
    s: "moved (if bold st then - 1 else 1) st s" "st' = s\<lparr>bold := \<not> bold s\<rparr>" by auto
  from moved_flags[OF s(1)] s assms(2) show ?thesis
    by (auto simp: moved_def open_count_def split: if_splits)
next
  case Italic
  with assms italic_toggle_moved[of st st'] obtain s where
    s: "moved (if italic st then - 1 else 1) st s" "st' = s\<lparr>italic := \<not> italic s\<rparr>" by auto
  from moved_flags[OF s(1)] s assms(2) show ?thesis
    by (auto simp: moved_def open_count_def split: if_splits)
qed

lemma run_toggles_depth:
  "run_toggles ls st = Inr st' \<Longrightarrow> length (parents st) = d + open_count st \<Longrightarrow>
   length (parents st') = d + open_count st'"
proof (induction ls arbitrary: st)
  case Nil
  then show ?case by simp
next
  case (Cons l ls)
  from bind_res_InrD[OF Cons.prems(1)[simplified]] obtain s where
    s: "toggle_of l st = Inr s" "run_toggles ls s = Inr st'" by auto
  from Cons.IH[OF s(2) toggle_depth[OF s(1) Cons.prems(2)]] show ?case .
qed

lemma run_toggles_Inv:
  "Inv C n st \<Longrightarrow> \<exists>st'. run_toggles ls st = Inr st' \<and> Inv C n st'"
proof (induction ls arbitrary: st)
  case Nil
  then show ?case by simp
next
  case (Cons l ls)
  have "\<exists>s. toggle_of l st = Inr s \<and> Inv C n s"
  proof (cases l)
    case Code
    then show ?thesis using Cons.prems by (simp add: code_toggle_def)
  next
    case Spoiler
    then show ?thesis using spoiler_toggle_Inv[OF Cons.prems] by auto
  next
    case Bold
    then show ?thesis using bold_toggle_Inv[OF Cons.prems] by auto
  next
    case Italic
    then show ?thesis using italic_toggle_Inv[OF Cons.prems] by auto
  qed
  then obtain s where s: "toggle_of l st = Inr s" "Inv C n s" by blast
  from Cons.IH[OF s(2)] s(1) show ?case by simp
qed

subsection \<open>Running the pipeline on concrete text\<close>

lemmas run_simps = parse_code_def parse_spoilers_def parse_bolds_def parse_italics_def
  code_filler_def spoiler_toggle_def bold_toggle_def italic_toggle_def code_toggle_def
  text_filler_def append_node_def ascend_def reset_def elem_def text_elem_def Let_def
  parse_string_pieces pieces.simps

lemma Inv_reset_blockquote: "Inv code_tag 1 (reset (elem ''blockquote''))"
  by (rule Inv_reset) (simp_all add: level_def code_tag_def elem_def formatting_def)

lemma keeps_span: "keeps C n (text_filler ''span'')"
  by (rule keeps_text_filler) (simp add: formatting_def)

lemma keeps_code: "keeps C n (text_filler ''code'')"
  by (rule keeps_text_filler) (simp add: formatting_def)

lemma clash_pairs:
  "clash C ''i'' ''b''" "clash C ''b'' ''del''" "clash C ''i'' ''del''"
  "clash C ''del'' ''del''" "clash C ''b'' ''b''" "clash C ''i'' ''i''"
  by (simp_all add: clash_def formatting_def level_def)

lemma clash_code:
  "C c \<Longrightarrow> \<not> formatting c \<Longrightarrow> clash C c ''del'' \<and> clash C c ''b'' \<and> clash C c ''i''"
  by (simp add: clash_def formatting_def level_def)

lemma toggle_twice_flag:
  assumes "toggle_of l st = Inr s1" "toggle_of l s1 = Inr s2"
  shows "level_flag l s1 = (\<not> level_flag l st) \<and> level_flag l s2 = level_flag l st"
proof (cases l)
  case Code
  with assms show ?thesis by (auto simp: code_toggle_def)
next
  case Spoiler
  with assms spoiler_toggle_moved[of st s1] spoiler_toggle_moved[of s1 s2]
  obtain a b where "moved (if spoiler st then - 1 else 1) st a" "s1 = a\<lparr>spoiler := \<not> spoiler a\<rparr>"
    "moved (if spoiler s1 then - 1 else 1) s1 b" "s2 = b\<lparr>spoiler := \<not> spoiler b\<rparr>" by auto
  then show ?thesis using Spoiler moved_flags[of _ st a] moved_flags[of _ s1 b] by auto
next
  case Bold
  with assms bold_toggle_moved[of st s1] bold_toggle_moved[of s1 s2]
  obtain a b where "moved (if bold st then - 1 else 1) st a" "s1 = a\<lparr>bold := \<not> bold a\<rparr>"
    "moved (if bold s1 then - 1 else 1) s1 b" "s2 = b\<lparr>bold := \<not> bold b\<rparr>" by auto
  then show ?thesis using Bold moved_flags[of _ st a] moved_flags[of _ s1 b] by auto
next
  case Italic
  with assms italic_toggle_moved[of st s1] italic_toggle_moved[of s1 s2]
  obtain a b where "moved (if italic st then - 1 else 1) st a" "s1 = a\<lparr>italic := \<not> italic a\<rparr>"
    "moved (if italic s1 then - 1 else 1) s1 b" "s2 = b\<lparr>italic := \<not> italic b\<rparr>" by auto
  then show ?thesis using Italic moved_flags[of _ st a] moved_flags[of _ s1 b] by auto
qed

lemma toggle_of_Inv:
  assumes "Inv C n st"
  shows "\<exists>s. toggle_of l st = Inr s \<and> Inv C n s \<and>
             spoiler s = (if l = Spoiler then \<not> spoiler st else spoiler st) \<and>
             bold s = (if l = Bold then \<not> bold st else bold st) \<and>
             italic s = (if l = Italic then \<not> italic st else italic st)"
proof (cases l)
  case Code
  then show ?thesis using assms by (simp add: code_toggle_def)
next
  case Spoiler
  from spoiler_toggle_Inv[OF assms] obtain s where
    s: "spoiler_toggle st = Inr s" "Inv C n s" "flags s = flags (st\<lparr>spoiler := \<not> spoiler st\<rparr>)"
    by blast
  from flagsD[OF s(3)] s(1,2) Spoiler show ?thesis by simp
next
  case Bold
  from bold_toggle_Inv[OF assms] obtain s where
    s: "bold_toggle st = Inr s" "Inv C n s" "flags s = flags (st\<lparr>bold := \<not> bold st\<rparr>)"
    by blast
  from flagsD[OF s(3)] s(1,2) Bold show ?thesis by simp
next
  case Italic
  from italic_toggle_Inv[OF assms] obtain s where
    s: "italic_toggle st = Inr s" "Inv C n s" "flags s = flags (st\<lparr>italic := \<not> italic st\<rparr>)"
    by blast
  from flagsD[OF s(3)] s(1,2) Italic show ?thesis by simp
qed

lemma toggle_twice_Inv:
  assumes "Inv C n st"
  shows "\<exists>s1 s2. toggle_of l st = Inr s1 \<and> toggle_of l s1 = Inr s2 \<and> Inv C n s2 \<and>
           open_tags s2 = open_tags st \<and> length (parents s2) = length (parents st)"
proof -
  from toggle_of_Inv[OF assms, of l] obtain s1 where
    s1: "toggle_of l st = Inr s1" "Inv C n s1"
      "spoiler s1 = (if l = Spoiler then \<not> spoiler st else spoiler st)"
      "bold s1 = (if l = Bold then \<not> bold st else bold st)"
      "italic s1 = (if l = Italic then \<not> italic st else italic st)" by blast
  from toggle_of_Inv[OF s1(2), of l] obtain s2 where
    s2: "toggle_of l s1 = Inr s2" "Inv C n s2"
      "spoiler s2 = (if l = Spoiler then \<not> spoiler s1 else spoiler s1)"
      "bold s2 = (if l = Bold then \<not> bold s1 else bold s1)"
      "italic s2 = (if l = Italic then \<not> italic s1 else italic s1)" by blast
  have o: "open_tags s2 = open_tags st" using s1(3-5) s2(3-5) by (simp add: open_tags_def)
  have "length (parents s2) = n + length (open_tags s2)" using s2(2) by (simp add: Inv_def wfs_def)
  moreover have "length (parents st) = n + length (open_tags st)"
    using assms by (simp add: Inv_def wfs_def)
  ultimately show ?thesis using s1(1) s2(1,2) o by auto
qed

lemma xor_odd_add: "((a \<noteq> odd j) \<noteq> odd k) = (a \<noteq> odd (j + k))"
  by auto

text \<open>
  The empty separator: the scan finds it at position 0 of every fragment and never
  shortens the fragment, so with callables that always return a state it does not
  return.
\<close>

lemma find_str_empty: "find_str frag [] = Some 0"
  by (cases frag) simp_all

lemma parse_string_empty_sep_aux:
  assumes "parse_string frag sep fl om st = Some y"
  shows "sep = [] \<longrightarrow> (\<forall>p s. \<exists>s'. fl p s = Some (Inr s')) \<longrightarrow>
         (\<forall>s. \<exists>s'. om s = Some (Inr s')) \<longrightarrow> False"
proof (rule parse_string.raw_induct[where P = "\<lambda>frag sep fl om st y.
    sep = [] \<longrightarrow> (\<forall>p s. \<exists>s'. fl p s = Some (Inr s')) \<longrightarrow>
    (\<forall>s. \<exists>s'. om s = Some (Inr s')) \<longrightarrow> False", OF _ assms])
  fix ps :: "string \<Rightarrow> string \<Rightarrow> (string \<Rightarrow> 'a \<Rightarrow> 'a result) \<Rightarrow> ('a \<Rightarrow> 'a result) \<Rightarrow> 'a \<Rightarrow> 'a result"
    and frag sep fl om st y
  assume IH: "\<And>frag sep fl om st y. ps frag sep fl om st = Some y \<Longrightarrow>
      sep = [] \<longrightarrow> (\<forall>p s. \<exists>s'. fl p s = Some (Inr s')) \<longrightarrow>
      (\<forall>s. \<exists>s'. om s = Some (Inr s')) \<longrightarrow> False"
    and body: "(case find_str frag sep of
        Some i \<Rightarrow>
          (case fl (take i frag) st of
             None \<Rightarrow> None
           | Some (Inl e) \<Rightarrow> Some (Inl e)
           | Some (Inr st1) \<Rightarrow>
               (case om st1 of
                  None \<Rightarrow> None
                | Some (Inl e) \<Rightarrow> Some (Inl e)
                | Some (Inr st2) \<Rightarrow> ps (drop (i + length sep) frag) sep fl om st2))
      | None \<Rightarrow> fl frag st) = Some y"
  show "sep = [] \<longrightarrow> (\<forall>p s. \<exists>s'. fl p s = Some (Inr s')) \<longrightarrow>
      (\<forall>s. \<exists>s'. om s = Some (Inr s')) \<longrightarrow> False"
  proof (intro impI)
    assume sep: "sep = []" and f: "\<forall>p s. \<exists>s'. fl p s = Some (Inr s')"
      and t: "\<forall>s. \<exists>s'. om s = Some (Inr s')"
    from f obtain s1 where s1: "fl (take 0 frag) st = Some (Inr s1)" by blast
    from t obtain s2 where s2: "om s1 = Some (Inr s2)" by blast
    from body sep s1 s2 have "ps (drop 0 frag) sep fl om s2 = Some y"
      by (simp add: find_str_empty)
    from IH[OF this] sep f t show False by blast
  qed
qed

lemma parse_string_empty_sep:
  assumes "\<And>p s. \<exists>s'. filler p s = Some (Inr s')" and "\<And>s. \<exists>s'. on_match s = Some (Inr s')"
  shows "parse_string frag [] filler on_match st = None"
proof (cases "parse_string frag [] filler on_match st")
  case None
  then show ?thesis .
next
  case (Some y)
  from parse_string_empty_sep_aux[OF Some] assms show ?thesis by blast
qed

text \<open>
  The text of a code span is appended at the insertion point as it stands, which may lie
  inside an open formatting element: in \<open>**a``b``c**\<close> the code text \<open>b\<close> ends up
  inside the \<open>del\<close> element.
\<close>

lemma code_text_inside_spoiler:
  "parse_code (text_filler ''code'') ''**a``b``c**'' (text_filler ''span'')
       (reset (elem ''blockquote'')) =
     Some (Inr ((reset (elem ''blockquote''))\<lparr>tree :=
       Node ''blockquote'' [] []
         [Node ''span'' [] [] [],
          Node ''del'' [] []
            [Node ''span'' [] ''a'' [], Node ''code'' [] ''b'' [], Node ''span'' [] ''c'' []],
          Node ''span'' [] [] []]\<rparr>))"
  by (simp add: run_simps)

text \<open>The check is not empty: it refuses the three nestings the pipeline must not build.\<close>

lemma nested_ok_refuses:
  "\<not> nested_ok code_tag [] (Node ''blockquote'' [] [] [Node ''i'' [] [] [Node ''b'' [] [] []]])"
  "\<not> nested_ok code_tag [] (Node ''blockquote'' [] [] [Node ''b'' [] [] [Node ''del'' [] [] []]])"
  "\<not> nested_ok code_tag []
      (Node ''blockquote'' [] [] [Node ''code'' [] [] [Node ''span'' [] [] [Node ''del'' [] [] []]]])"
  "nested_ok code_tag []
      (Node ''blockquote'' [] [] [Node ''del'' [] [] [Node ''b'' [] [] [Node ''i'' [] [] []]]])"
  by (simp_all add: clash_def formatting_def level_def code_tag_def)

subsection \<open>The elements the toggles create\<close>

lemma count_tag_push_back:
  "deref r p = Some x \<Longrightarrow> count_tag t (push_back p c r) = count_tag t r + count_tag t c"
proof (induction p arbitrary: r x)
  case Nil
  show ?case by (cases r) simp
next
  case (Cons k p)
  obtain tg a h cs where r: "r = Node tg a h cs" by (cases r)
  from Cons.prems r have k: "k < length cs" and d: "deref (cs ! k) p = Some x"
    by (auto split: if_splits)
  let ?f = "count_tag t"
  have IH: "?f (push_back p c (cs ! k)) = ?f (cs ! k) + ?f c" using Cons.IH[OF d] .
  have "map ?f (cs[k := push_back p c (cs ! k)]) = (map ?f cs)[k := ?f (cs ! k) + ?f c]"
    by (simp add: map_update IH)
  moreover have "sum_list ((map ?f cs)[k := ?f (cs ! k) + ?f c]) = sum_list (map ?f cs) + ?f c"
    using k by (simp add: sum_list_update)
  ultimately show ?case using r k by simp
qed

lemma count_tag_elem [simp]: "count_tag t (elem t') = (if t' = t then 1 else 0)"
  by (simp add: elem_def)

lemma count_tag_text_elem [simp]: "count_tag t (text_elem t' s) = (if t' = t then 1 else 0)"
  by (simp add: text_elem_def)

lemma ascend_grown: "ascend s = Inr s' \<Longrightarrow> grown t 0 s s'"
  by (auto simp: ascend_def grown_def flags_def split: if_splits)

lemma append_grown: "append_node c d s = Inr s' \<Longrightarrow> grown t (count_tag t c) s s'"
  by (auto simp: append_node_def grown_def flags_def Let_def count_tag_push_back
      split: if_splits option.splits)

lemma grown_refl: "grown t 0 s s"
  by (simp add: grown_def)

lemma grown_trans: "grown t j s s1 \<Longrightarrow> grown t k s1 s2 \<Longrightarrow> grown t (j + k) s s2"
  by (simp add: grown_def)

lemma grown_flags:
  "grown t k s s' \<Longrightarrow> spoiler s' = spoiler s \<and> bold s' = bold s \<and> italic s' = italic s \<and>
     code s' = code s"
  by (simp add: grown_def flags_def)

lemma italic_toggle_grown:
  assumes "italic_toggle st = Inr st'"
  shows "\<exists>s. grown t (if \<not> italic st \<and> t = ''i'' then 1 else 0) st s \<and>
             st' = s\<lparr>italic := \<not> italic s\<rparr>"
proof -
  from bind_res_InrD[OF assms[unfolded italic_toggle_def]] obtain s1 where
    s1: "(if italic st then ascend st else append_node (elem ''i'') True st) = Inr s1"
    and r: "st' = s1\<lparr>italic := \<not> italic s1\<rparr>" by auto
  have "grown t (if \<not> italic st \<and> t = ''i'' then 1 else 0) st s1"
    using s1 ascend_grown[of st s1 t] append_grown[of "elem ''i''" True st s1 t]
    by (auto split: if_splits)
  with r show ?thesis by blast
qed

lemma bold_toggle_grown:
  assumes "bold_toggle st = Inr st'"
  shows "\<exists>s. grown t ((if \<not> bold st \<and> t = ''b'' then 1 else 0) +
                       (if italic st \<and> t = ''i'' then 1 else 0)) st s \<and>
             st' = s\<lparr>bold := \<not> bold s\<rparr>"
proof -
  from bind_res_InrD[OF assms[unfolded bold_toggle_def]] obtain s1 where
    s1: "(if italic st then ascend st else Inr st) = Inr s1"
    and r1: "bind_res (if bold s1 then ascend s1 else append_node (elem ''b'') True s1) (\<lambda>st.
     bind_res (if italic st then append_node (elem ''i'') True st else Inr st) (\<lambda>st.
     Inr (st\<lparr>bold := \<not> bold st\<rparr>))) = Inr st'" by auto
  from bind_res_InrD[OF r1] obtain s2 where
    s2: "(if bold s1 then ascend s1 else append_node (elem ''b'') True s1) = Inr s2"
    and r2: "bind_res (if italic s2 then append_node (elem ''i'') True s2 else Inr s2) (\<lambda>st.
     Inr (st\<lparr>bold := \<not> bold st\<rparr>)) = Inr st'" by auto
  from bind_res_InrD[OF r2] obtain s3 where
    s3: "(if italic s2 then append_node (elem ''i'') True s2 else Inr s2) = Inr s3"
    and r: "st' = s3\<lparr>bold := \<not> bold s3\<rparr>" by auto
  have m1: "grown t 0 st s1"
    using s1 ascend_grown[of st s1 t] grown_refl[of t st] by (auto split: if_splits)
  note f1 = grown_flags[OF m1]
  have m2: "grown t (if \<not> bold st \<and> t = ''b'' then 1 else 0) s1 s2"
    using s2 f1 ascend_grown[of s1 s2 t] append_grown[of "elem ''b''" True s1 s2 t]
    by (auto split: if_splits)
  note f2 = grown_flags[OF m2]
  have m3: "grown t (if italic st \<and> t = ''i'' then 1 else 0) s2 s3"
    using s3 f1 f2 append_grown[of "elem ''i''" True s2 s3 t] grown_refl[of t s2]
    by (auto split: if_splits)
  have "grown t ((if \<not> bold st \<and> t = ''b'' then 1 else 0) +
                 (if italic st \<and> t = ''i'' then 1 else 0)) st s3"
    using grown_trans[OF grown_trans[OF m1 m2] m3] by simp
  with r show ?thesis by blast
qed

lemma spoiler_toggle_grown:
  assumes "spoiler_toggle st = Inr st'"
  shows "\<exists>s. grown t ((if \<not> spoiler st \<and> t = ''del'' then 1 else 0) +
                       (if bold st \<and> t = ''b'' then 1 else 0) +
                       (if italic st \<and> t = ''i'' then 1 else 0)) st s \<and>
             st' = s\<lparr>spoiler := \<not> spoiler s\<rparr>"
proof -
  from bind_res_InrD[OF assms[unfolded spoiler_toggle_def]] obtain s1 where
    s1: "(if italic st then ascend st else Inr st) = Inr s1"
    and r1: "bind_res (if bold s1 then ascend s1 else Inr s1) (\<lambda>st.
     bind_res (if spoiler st then ascend st else append_node (elem ''del'') True st) (\<lambda>st.
     bind_res (if bold st then append_node (elem ''b'') True st else Inr st) (\<lambda>st.
     bind_res (if italic st then append_node (elem ''i'') True st else Inr st) (\<lambda>st.
     Inr (st\<lparr>spoiler := \<not> spoiler st\<rparr>))))) = Inr st'" by auto
  from bind_res_InrD[OF r1] obtain s2 where
    s2: "(if bold s1 then ascend s1 else Inr s1) = Inr s2"
    and r2: "bind_res (if spoiler s2 then ascend s2 else append_node (elem ''del'') True s2) (\<lambda>st.
     bind_res (if bold st then append_node (elem ''b'') True st else Inr st) (\<lambda>st.
     bind_res (if italic st then append_node (elem ''i'') True st else Inr st) (\<lambda>st.
     Inr (st\<lparr>spoiler := \<not> spoiler st\<rparr>)))) = Inr st'" by auto
  from bind_res_InrD[OF r2] obtain s3 where
    s3: "(if spoiler s2 then ascend s2 else append_node (elem ''del'') True s2) = Inr s3"
    and r3: "bind_res (if bold s3 then append_node (elem ''b'') True s3 else Inr s3) (\<lambda>st.
     bind_res (if italic st then append_node (elem ''i'') True st else Inr st) (\<lambda>st.
     Inr (st\<lparr>spoiler := \<not> spoiler st\<rparr>))) = Inr st'" by auto
  from bind_res_InrD[OF r3] obtain s4 where
    s4: "(if bold s3 then append_node (elem ''b'') True s3 else Inr s3) = Inr s4"
    and r4: "bind_res (if italic s4 then append_node (elem ''i'') True s4 else Inr s4) (\<lambda>st.
     Inr (st\<lparr>spoiler := \<not> spoiler st\<rparr>)) = Inr st'" by auto
  from bind_res_InrD[OF r4] obtain s5 where
    s5: "(if italic s4 then append_node (elem ''i'') True s4 else Inr s4) = Inr s5"
    and r: "st' = s5\<lparr>spoiler := \<not> spoiler s5\<rparr>" by auto
  have m1: "grown t 0 st s1"
    using s1 ascend_grown[of st s1 t] grown_refl[of t st] by (auto split: if_splits)
  note f1 = grown_flags[OF m1]
  have m2: "grown t 0 s1 s2"
    using s2 ascend_grown[of s1 s2 t] grown_refl[of t s1] by (auto split: if_splits)
  note f2 = grown_flags[OF m2]
  have m3: "grown t (if \<not> spoiler st \<and> t = ''del'' then 1 else 0) s2 s3"
    using s3 f1 f2 ascend_grown[of s2 s3 t] append_grown[of "elem ''del''" True s2 s3 t]
    by (auto split: if_splits)
  note f3 = grown_flags[OF m3]
  have m4: "grown t (if bold st \<and> t = ''b'' then 1 else 0) s3 s4"
    using s4 f1 f2 f3 append_grown[of "elem ''b''" True s3 s4 t] grown_refl[of t s3]
    by (auto split: if_splits)
  note f4 = grown_flags[OF m4]
  have m5: "grown t (if italic st \<and> t = ''i'' then 1 else 0) s4 s5"
    using s5 f1 f2 f3 f4 append_grown[of "elem ''i''" True s4 s5 t] grown_refl[of t s4]
    by (auto split: if_splits)
  have "grown t ((if \<not> spoiler st \<and> t = ''del'' then 1 else 0) +
                 (if bold st \<and> t = ''b'' then 1 else 0) +
                 (if italic st \<and> t = ''i'' then 1 else 0)) st s5"
    using grown_trans[OF grown_trans[OF grown_trans[OF grown_trans[OF m1 m2] m3] m4] m5]
    by (simp add: add.assoc)
  with r show ?thesis by blast
qed

lemma grown_count: "grown t k s s' \<Longrightarrow> count_tag t (tree s') = count_tag t (tree s) + k"
  by (simp add: grown_def)

lemma opens_Suc: "opens b (Suc k) = (if b then 0 else 1) + opens (\<not> b) k"
  by (simp add: opens_def)

lemma opens_0 [simp]: "opens b 0 = 0"
  by (simp add: opens_def)

lemma opens_even: "even k \<Longrightarrow> opens b k = k div 2"
  by (auto simp: opens_def elim: evenE)

lemma parse_string_count:
  assumes sep: "sep \<noteq> []"
    and filler: "\<And>f s. P s \<Longrightarrow> \<exists>s'. filler f s = Some (Inr s') \<and> P s' \<and> g s' = g s \<and> c s' = c s"
    and toggle: "\<And>s. P s \<Longrightarrow> \<exists>s'. on_match s = Some (Inr s') \<and> P s' \<and> g s' = (\<not> g s) \<and>
                   c s' = c s + (if g s then 0 else (1::nat))"
  shows "P st \<Longrightarrow> \<exists>st'. parse_string frag sep filler on_match st = Some (Inr st') \<and> P st' \<and>
           g st' = (g st \<noteq> odd (count_sep sep frag)) \<and>
           c st' = c st + opens (g st) (count_sep sep frag)"
proof (induction "length frag" arbitrary: frag st rule: less_induct)
  case less
  show ?case
  proof (cases "find_str frag sep")
    case None
    from filler[OF less.prems, of frag] obtain s' where
      "filler frag st = Some (Inr s')" "P s'" "g s' = g st" "c s' = c st" by blast
    then show ?thesis using None sep
      by (subst parse_string.simps, subst count_sep.simps, subst count_sep.simps) simp
  next
    case (Some i)
    let ?rest = "drop (i + length sep) frag"
    have sh: "length ?rest < length frag" using find_str_shrinks[OF sep Some] .
    from filler[OF less.prems, of "take i frag"] obtain s1 where
      s1: "filler (take i frag) st = Some (Inr s1)" "P s1" "g s1 = g st" "c s1 = c st" by blast
    from toggle[OF s1(2)] obtain s2 where
      s2: "on_match s1 = Some (Inr s2)" "P s2" "g s2 = (\<not> g s1)"
        "c s2 = c s1 + (if g s1 then 0 else 1)" by blast
    from less.hyps[OF sh s2(2)] obtain st' where
      st': "parse_string ?rest sep filler on_match s2 = Some (Inr st')" "P st'"
        "g st' = (g s2 \<noteq> odd (count_sep sep ?rest))"
        "c st' = c s2 + opens (g s2) (count_sep sep ?rest)" by blast
    have k: "count_sep sep frag = Suc (count_sep sep ?rest)"
      using Some sep by (subst count_sep.simps) simp
    have p: "parse_string frag sep filler on_match st = Some (Inr st')"
      using Some s1(1) s2(1) st'(1) by (subst parse_string.simps) simp
    have "g st' = (g st \<noteq> odd (count_sep sep frag))"
      using st'(3) s1(3) s2(3) k by auto
    moreover have "c st' = c st + opens (g st) (count_sep sep frag)"
      unfolding k opens_Suc using st'(4) s1(3,4) s2(3,4) by simp
    ultimately show ?thesis using p st'(2) by blast
  qed
qed

lemma adds_no_formattingD:
  "adds_no_formatting fn \<Longrightarrow> fn frag st = Some (Inr st') \<Longrightarrow> formatting t \<Longrightarrow>
   count_tag t (tree st') = count_tag t (tree st)"
  unfolding adds_no_formatting_def by blast

lemma parse_italics_count:
  assumes k: "keeps C n fn" and q: "adds_no_formatting fn" and i: "Inv C n st"
  shows "\<exists>st'. parse_italics frag fn st = Some (Inr st') \<and> Inv C n st' \<and>
           code st' = code st \<and> spoiler st' = spoiler st \<and> bold st' = bold st \<and>
           italic st' = (italic st \<noteq> odd (count_sep ''~~'' frag)) \<and>
           count_tag ''del'' (tree st') = count_tag ''del'' (tree st) \<and>
           count_tag ''b'' (tree st') = count_tag ''b'' (tree st) \<and>
           count_tag ''i'' (tree st') =
             count_tag ''i'' (tree st) + opens (italic st) (count_sep ''~~'' frag)"
proof -
  let ?P = "\<lambda>s. Inv C n s \<and> code s = code st \<and> spoiler s = spoiler st \<and> bold s = bold st \<and>
      count_tag ''del'' (tree s) = count_tag ''del'' (tree st) \<and>
      count_tag ''b'' (tree s) = count_tag ''b'' (tree st)"
  let ?c = "\<lambda>s. count_tag ''i'' (tree s)"
  have f: "\<And>f s. ?P s \<Longrightarrow> \<exists>s'. fn f s = Some (Inr s') \<and> ?P s' \<and> italic s' = italic s \<and> ?c s' = ?c s"
  proof -
    fix f s assume s: "?P s"
    with k obtain s' where s': "fn f s = Some (Inr s')" "Inv C n s'" "code s' = code s"
      "spoiler s' = spoiler s" "bold s' = bold s" "italic s' = italic s"
      unfolding keeps_def by blast
    from adds_no_formattingD[OF q s'(1)] have
      "count_tag ''del'' (tree s') = count_tag ''del'' (tree s)"
      "count_tag ''b'' (tree s') = count_tag ''b'' (tree s)"
      "count_tag ''i'' (tree s') = count_tag ''i'' (tree s)" by simp_all
    with s s' show "\<exists>s'. fn f s = Some (Inr s') \<and> ?P s' \<and> italic s' = italic s \<and> ?c s' = ?c s"
      by simp
  qed
  have t: "\<And>s. ?P s \<Longrightarrow> \<exists>s'. Some (italic_toggle s) = Some (Inr s') \<and> ?P s' \<and>
      italic s' = (\<not> italic s) \<and> ?c s' = ?c s + (if italic s then 0 else 1)"
  proof -
    fix s assume s: "?P s"
    then obtain s' where s': "italic_toggle s = Inr s'" "Inv C n s'"
      "flags s' = flags (s\<lparr>italic := \<not> italic s\<rparr>)" using italic_toggle_Inv by blast
    have c: "count_tag t (tree s') = count_tag t (tree s) + (if \<not> italic s \<and> t = ''i'' then 1 else 0)"
      for t using italic_toggle_grown[OF s'(1), of t] by (auto simp: grown_def)
    from flagsD[OF s'(3)] s s'(1,2) c[of "''del''"] c[of "''b''"] c[of "''i''"]
    show "\<exists>s'. Some (italic_toggle s) = Some (Inr s') \<and> ?P s' \<and>
      italic s' = (\<not> italic s) \<and> ?c s' = ?c s + (if italic s then 0 else 1)"
      by simp
  qed
  have "?P st" using i by simp
  have "\<exists>st'. parse_string frag ''~~'' fn (\<lambda>s. Some (italic_toggle s)) st = Some (Inr st') \<and> ?P st' \<and>
           italic st' = (italic st \<noteq> odd (count_sep ''~~'' frag)) \<and>
           ?c st' = ?c st + opens (italic st) (count_sep ''~~'' frag)"
    by (rule parse_string_count[where P = ?P and g = italic and c = ?c])
       (simp, fact f, fact t, fact \<open>?P st\<close>)
  then show ?thesis unfolding parse_italics_def by blast
qed

lemma parse_bolds_count:
  assumes k: "keeps C n fn" and q: "adds_no_formatting fn" and i: "Inv C n st"
  shows "\<exists>st'. parse_bolds frag fn st = Some (Inr st') \<and> Inv C n st' \<and>
           code st' = code st \<and> spoiler st' = spoiler st \<and>
           bold st' = (bold st \<noteq> odd (count_sep ''__'' frag)) \<and>
           count_tag ''del'' (tree st') = count_tag ''del'' (tree st) \<and>
           count_tag ''b'' (tree st') =
             count_tag ''b'' (tree st) + opens (bold st) (count_sep ''__'' frag)"
proof -
  let ?P = "\<lambda>s. Inv C n s \<and> code s = code st \<and> spoiler s = spoiler st \<and>
      count_tag ''del'' (tree s) = count_tag ''del'' (tree st)"
  let ?c = "\<lambda>s. count_tag ''b'' (tree s)"
  have f: "\<And>f s. ?P s \<Longrightarrow> \<exists>s'. parse_italics f fn s = Some (Inr s') \<and> ?P s' \<and>
      bold s' = bold s \<and> ?c s' = ?c s"
  proof -
    fix f s assume s: "?P s"
    then have "Inv C n s" by simp
    from parse_italics_count[OF k q this, of f] s
    show "\<exists>s'. parse_italics f fn s = Some (Inr s') \<and> ?P s' \<and> bold s' = bold s \<and> ?c s' = ?c s"
      by auto
  qed
  have t: "\<And>s. ?P s \<Longrightarrow> \<exists>s'. Some (bold_toggle s) = Some (Inr s') \<and> ?P s' \<and>
      bold s' = (\<not> bold s) \<and> ?c s' = ?c s + (if bold s then 0 else 1)"
  proof -
    fix s assume s: "?P s"
    then obtain s' where s': "bold_toggle s = Inr s'" "Inv C n s'"
      "flags s' = flags (s\<lparr>bold := \<not> bold s\<rparr>)" using bold_toggle_Inv by blast
    have c: "count_tag t (tree s') = count_tag t (tree s) +
        ((if \<not> bold s \<and> t = ''b'' then 1 else 0) + (if italic s \<and> t = ''i'' then 1 else 0))"
      for t using bold_toggle_grown[OF s'(1), of t] by (auto simp: grown_def)
    from flagsD[OF s'(3)] s s'(1,2) c[of "''del''"] c[of "''b''"]
    show "\<exists>s'. Some (bold_toggle s) = Some (Inr s') \<and> ?P s' \<and>
      bold s' = (\<not> bold s) \<and> ?c s' = ?c s + (if bold s then 0 else 1)"
      by simp
  qed
  have "?P st" using i by simp
  have "\<exists>st'. parse_string frag ''__'' (\<lambda>f. parse_italics f fn) (\<lambda>s. Some (bold_toggle s)) st
            = Some (Inr st') \<and> ?P st' \<and> bold st' = (bold st \<noteq> odd (count_sep ''__'' frag)) \<and>
           ?c st' = ?c st + opens (bold st) (count_sep ''__'' frag)"
    by (rule parse_string_count[where P = ?P and g = bold and c = ?c])
       (simp, fact f, fact t, fact \<open>?P st\<close>)
  then show ?thesis unfolding parse_bolds_def by blast
qed

lemma parse_spoilers_count:
  assumes k: "keeps C n fn" and q: "adds_no_formatting fn" and i: "Inv C n st"
  shows "\<exists>st'. parse_spoilers frag fn st = Some (Inr st') \<and> Inv C n st' \<and>
           code st' = code st \<and>
           spoiler st' = (spoiler st \<noteq> odd (count_sep ''**'' frag)) \<and>
           count_tag ''del'' (tree st') =
             count_tag ''del'' (tree st) + opens (spoiler st) (count_sep ''**'' frag)"
proof -
  let ?P = "\<lambda>s. Inv C n s \<and> code s = code st"
  let ?c = "\<lambda>s. count_tag ''del'' (tree s)"
  have f: "\<And>f s. ?P s \<Longrightarrow> \<exists>s'. parse_bolds f fn s = Some (Inr s') \<and> ?P s' \<and>
      spoiler s' = spoiler s \<and> ?c s' = ?c s"
  proof -
    fix f s assume s: "?P s"
    then have "Inv C n s" by simp
    from parse_bolds_count[OF k q this, of f] s
    show "\<exists>s'. parse_bolds f fn s = Some (Inr s') \<and> ?P s' \<and> spoiler s' = spoiler s \<and> ?c s' = ?c s"
      by auto
  qed
  have t: "\<And>s. ?P s \<Longrightarrow> \<exists>s'. Some (spoiler_toggle s) = Some (Inr s') \<and> ?P s' \<and>
      spoiler s' = (\<not> spoiler s) \<and> ?c s' = ?c s + (if spoiler s then 0 else 1)"
  proof -
    fix s assume s: "?P s"
    then obtain s' where s': "spoiler_toggle s = Inr s'" "Inv C n s'"
      "flags s' = flags (s\<lparr>spoiler := \<not> spoiler s\<rparr>)" using spoiler_toggle_Inv by blast
    have c: "count_tag ''del'' (tree s') = count_tag ''del'' (tree s) + (if spoiler s then 0 else 1)"
      using spoiler_toggle_grown[OF s'(1), of "''del''"] by (auto simp: grown_def)
    from flagsD[OF s'(3)] s s'(1,2) c
    show "\<exists>s'. Some (spoiler_toggle s) = Some (Inr s') \<and> ?P s' \<and>
      spoiler s' = (\<not> spoiler s) \<and> ?c s' = ?c s + (if spoiler s then 0 else 1)"
      by simp
  qed
  have "?P st" using i by simp
  have "\<exists>st'. parse_string frag ''**'' (\<lambda>f. parse_bolds f fn) (\<lambda>s. Some (spoiler_toggle s)) st
            = Some (Inr st') \<and> ?P st' \<and> spoiler st' = (spoiler st \<noteq> odd (count_sep ''**'' frag)) \<and>
           ?c st' = ?c st + opens (spoiler st) (count_sep ''**'' frag)"
    by (rule parse_string_count[where P = ?P and g = spoiler and c = ?c])
       (simp, fact f, fact t, fact \<open>?P st\<close>)
  then show ?thesis unfolding parse_spoilers_def by blast
qed

lemma adds_no_formatting_text_filler:
  "\<not> formatting tg \<Longrightarrow> adds_no_formatting (text_filler tg)"
  unfolding adds_no_formatting_def text_filler_def
  using append_grown[of "text_elem tg _" False] by (auto simp: grown_def)

subsection \<open>Code spans and the highlighter\<close>

lemma run_pieces_code:
  assumes k: "keeps C n fn" and h: "keeps C n hl"
  shows "Inv C n st \<Longrightarrow>
    run_pieces (code_filler hl fn) (\<lambda>s. Some (code_toggle s)) ps st =
    run_code_pieces hl fn (code st) ps st"
proof (induction ps arbitrary: st rule: calls.induct)
  case 1
  then show ?case by simp
next
  case (2 p)
  then show ?case by (simp add: code_filler_def)
next
  case (3 p q ps)
  let ?m = "if code st then hl (strip_quotes p) st else parse_spoilers p fn st"
  have cf: "code_filler hl fn p st = ?m" by (simp add: code_filler_def)
  have "\<exists>s1. ?m = Some (Inr s1) \<and> Inv C n s1 \<and> code s1 = code st"
  proof (cases "code st")
    case True
    from h 3(2) obtain s' where "hl (strip_quotes p) st = Some (Inr s')" "Inv C n s'"
      "code s' = code st" unfolding keeps_def by blast
    then show ?thesis using True by auto
  next
    case False
    from parse_spoilers_ok[OF k 3(2), of p] False show ?thesis by auto
  qed
  then obtain s1 where s1: "?m = Some (Inr s1)" "Inv C n s1" "code s1 = code st" by blast
  let ?s2 = "s1\<lparr>code := \<not> code st\<rparr>"
  have i2: "Inv C n ?s2" using s1(2) by simp
  have c2: "code ?s2 = (\<not> code st)" by simp
  have "run_pieces (code_filler hl fn) (\<lambda>s. Some (code_toggle s)) (p # q # ps) st =
        run_pieces (code_filler hl fn) (\<lambda>s. Some (code_toggle s)) (q # ps) ?s2"
    using s1(1,3) by (simp add: cf code_toggle_def)
  also have "\<dots> = run_code_pieces hl fn (\<not> code st) (q # ps) ?s2"
    using 3(1)[OF i2] c2 by simp
  also have "\<dots> = run_code_pieces hl fn (code st) (p # q # ps) st"
    using s1(1) by simp
  finally show ?case .
qed

lemma parse_code_pieces:
  assumes "keeps C n fn" and "keeps C n hl" and "Inv C n st"
  shows "parse_code hl frag fn st = run_code_pieces hl fn (code st) (pieces ''``'' frag) st"
  unfolding parse_code_def
  using run_pieces_code[OF assms, of "pieces ''``'' frag"]
  by (simp add: parse_string_pieces)

lemma toggle_of_effect:
  assumes "toggle_of l st = Inr s1"
  shows "level_flag l s1 = (\<not> level_flag l st) \<and>
         (case level_elem l of
            None \<Rightarrow> tree s1 = tree st \<and> parents s1 = parents st
          | Some t \<Rightarrow> count_tag t (tree s1) =
                       count_tag t (tree st) + (if level_flag l st then 0 else 1))"
proof (cases l)
  case Code
  with assms show ?thesis by (auto simp: code_toggle_def)
next
  case Spoiler
  with assms spoiler_toggle_grown[of st s1 "''del''"] obtain s where
    "grown ''del'' (if \<not> spoiler st then 1 else 0) st s" "s1 = s\<lparr>spoiler := \<not> spoiler s\<rparr>"
    by auto
  then show ?thesis using Spoiler grown_flags[of "''del''" _ st s] by (auto simp: grown_def)
next
  case Bold
  with assms bold_toggle_grown[of st s1 "''b''"] obtain s where
    "grown ''b'' (if \<not> bold st then 1 else 0) st s" "s1 = s\<lparr>bold := \<not> bold s\<rparr>"
    by auto
  then show ?thesis using Bold grown_flags[of "''b''" _ st s] by (auto simp: grown_def)
next
  case Italic
  with assms italic_toggle_grown[of st s1 "''i''"] obtain s where
    "grown ''i'' (if \<not> italic st then 1 else 0) st s" "s1 = s\<lparr>italic := \<not> italic s\<rparr>"
    by auto
  then show ?thesis using Italic grown_flags[of "''i''" _ st s] by (auto simp: grown_def)
qed

lemma no_formatting_span: "adds_no_formatting (text_filler ''span'')"
  by (rule adds_no_formatting_text_filler) (simp add: formatting_def)

lemma scanner_count_unique:
  assumes "m = Some (Inr a)" and "m = Some (Inr b)"
  shows "a = b"
  using assms by simp

section \<open>The claims\<close>

text \<open>
  C1, as the code has it. Let the two callables of the pipeline, \<open>fn\<close> and
  \<^verbatim>\<open>highlight_syntax\<close>, keep the invariant of the render pass, and let the pass start in a
  state that satisfies it (the state after \<^verbatim>\<open>reset\<close> does). Then for every fragment
  \<^verbatim>\<open>parse_code\<close> returns, and in the tree it leaves no \<open>b\<close> stands below an \<open>i\<close> and no
  \<open>del\<close> below a \<open>b\<close> or an \<open>i\<close>, whatever the order of the delimiters in the text.
  The text of a code span goes to \<^verbatim>\<open>highlight_syntax\<close> and to nothing else, so that no
  \<open>del\<close>, \<open>b\<close> or \<open>i\<close> is created for it, and none stands below an element that
  stands for code. The pipeline creates no element for a code span: what the
  highlighter appends lands at the insertion point as it stands, inside the elements
  that are open. Code is innermost in the tree, not outermost.
\<close>

theorem canonical_nesting:
  assumes "keeps C n fn" and "keeps C n highlight_syntax" and "Inv C n st"
  shows "(\<exists>st'. parse_code highlight_syntax frag fn st = Some (Inr st') \<and> Inv C n st' \<and>
                nested_ok C [] (tree st')) \<and>
         parse_code highlight_syntax frag fn st =
           run_code_pieces highlight_syntax fn (code st) (pieces ''``'' frag) st \<and>
         clash C ''i'' ''b'' \<and> clash C ''b'' ''del'' \<and> clash C ''i'' ''del'' \<and>
         (\<forall>c. C c \<and> \<not> formatting c \<longrightarrow> clash C c ''del'' \<and> clash C c ''b'' \<and> clash C c ''i'')"
proof (intro conjI allI impI)
  from parse_code_ok[OF assms(1,2,3), of frag] obtain st' where
    "parse_code highlight_syntax frag fn st = Some (Inr st')" "Inv C n st'" by blast
  then show "\<exists>st'. parse_code highlight_syntax frag fn st = Some (Inr st') \<and> Inv C n st' \<and>
                nested_ok C [] (tree st')"
    using Inv_nested_ok by blast
next
  show "parse_code highlight_syntax frag fn st =
           run_code_pieces highlight_syntax fn (code st) (pieces ''``'' frag) st"
    using parse_code_pieces[OF assms] .
qed (simp_all add: clash_pairs clash_code)

theorem canonical_nesting_witness:
  "keeps code_tag 1 (text_filler ''span'') \<and> keeps code_tag 1 (text_filler ''code'') \<and>
   Inv code_tag 1 (reset (elem ''blockquote'')) \<and>
   pieces ''``'' ''**a``__b__``c**'' = [''**a'', ''__b__'', ''c**''] \<and>
   parse_code (text_filler ''code'') ''**a``__b__``c**'' (text_filler ''span'')
       (reset (elem ''blockquote'')) =
     Some (Inr ((reset (elem ''blockquote''))\<lparr>tree :=
       Node ''blockquote'' [] []
         [Node ''span'' [] [] [],
          Node ''del'' [] []
            [Node ''span'' [] ''a'' [], Node ''code'' [] ''__b__'' [],
             Node ''span'' [] ''c'' []],
          Node ''span'' [] [] []]\<rparr>)) \<and>
   nested_ok code_tag []
       (Node ''blockquote'' [] []
         [Node ''span'' [] [] [],
          Node ''del'' [] []
            [Node ''span'' [] ''a'' [], Node ''code'' [] ''__b__'' [],
             Node ''span'' [] ''c'' []],
          Node ''span'' [] [] []]) \<and>
   parse_code (text_filler ''code'') ''__a**b**c__'' (text_filler ''span'')
       (reset (elem ''blockquote'')) =
     Some (Inr ((reset (elem ''blockquote''))\<lparr>tree :=
       Node ''blockquote'' [] []
         [Node ''span'' [] [] [],
          Node ''b'' [] [] [Node ''span'' [] ''a'' []],
          Node ''del'' [] [] [Node ''b'' [] [] [Node ''span'' [] ''b'' []]],
          Node ''b'' [] [] [Node ''span'' [] ''c'' []],
          Node ''span'' [] [] []]\<rparr>)) \<and>
   parse_code (text_filler ''code'') ''**a__b__c**'' (text_filler ''span'')
       (reset (elem ''blockquote'')) =
     Some (Inr ((reset (elem ''blockquote''))\<lparr>tree :=
       Node ''blockquote'' [] []
         [Node ''span'' [] [] [],
          Node ''del'' [] []
            [Node ''span'' [] ''a'' [],
             Node ''b'' [] [] [Node ''span'' [] ''b'' []],
             Node ''span'' [] ''c'' []],
          Node ''span'' [] [] []]\<rparr>))"
proof -
  let ?s0 = "reset (elem ''blockquote'')"
  let ?t = "Node ''blockquote'' [] []
         [Node ''span'' [] [] [],
          Node ''del'' [] []
            [Node ''span'' [] ''a'' [], Node ''code'' [] ''__b__'' [],
             Node ''span'' [] ''c'' []],
          Node ''span'' [] [] []]"
  have p: "pieces ''``'' ''**a``__b__``c**'' = [''**a'', ''__b__'', ''c**'']"
    by (simp add: pieces.simps)
  have e0: "parse_code (text_filler ''code'') ''**a``__b__``c**'' (text_filler ''span'') ?s0 =
      Some (Inr (?s0\<lparr>tree := ?t\<rparr>))"
    by (simp add: run_simps)
  have e1: "parse_code (text_filler ''code'') ''__a**b**c__'' (text_filler ''span'') ?s0 =
     Some (Inr (?s0\<lparr>tree :=
       Node ''blockquote'' [] []
         [Node ''span'' [] [] [],
          Node ''b'' [] [] [Node ''span'' [] ''a'' []],
          Node ''del'' [] [] [Node ''b'' [] [] [Node ''span'' [] ''b'' []]],
          Node ''b'' [] [] [Node ''span'' [] ''c'' []],
          Node ''span'' [] [] []]\<rparr>))"
    by (simp add: run_simps)
  have e2: "parse_code (text_filler ''code'') ''**a__b__c**'' (text_filler ''span'') ?s0 =
     Some (Inr (?s0\<lparr>tree :=
       Node ''blockquote'' [] []
         [Node ''span'' [] [] [],
          Node ''del'' [] []
            [Node ''span'' [] ''a'' [],
             Node ''b'' [] [] [Node ''span'' [] ''b'' []],
             Node ''span'' [] ''c'' []],
          Node ''span'' [] [] []]\<rparr>))"
    by (simp add: run_simps)
  note c = canonical_nesting[OF keeps_span keeps_code Inv_reset_blockquote,
      of "''**a``__b__``c**''"]
  from c[THEN conjunct1] obtain st' where
    s: "parse_code (text_filler ''code'') ''**a``__b__``c**'' (text_filler ''span'') ?s0 =
        Some (Inr st')" "nested_ok code_tag [] (tree st')"
    by (elim exE conjE)
  from s(1) e0 have "st' = ?s0\<lparr>tree := ?t\<rparr>" by (simp only: option.inject sum.inject)
  with s(2) have n: "nested_ok code_tag [] ?t" by simp
  show ?thesis
    by (intro conjI) (rule keeps_span keeps_code Inv_reset_blockquote p e0 n e1 e2)+
qed

text \<open>
  C1, as the claim states it, fails: code is not outermost. In \<open>**__~~``b``\<close> the three
  elements are open when the code span begins, and the code text is appended inside
  them: its ancestors are \<open>del\<close>, \<open>b\<close> and \<open>i\<close>.
\<close>

theorem canonical_nesting_counterexample:
  "parse_code (text_filler ''code'') ''**__~~``b``'' (text_filler ''span'')
       (reset (elem ''blockquote'')) =
     Some (Inr ((reset (elem ''blockquote''))
       \<lparr>spoiler := True, bold := True, italic := True,
        parents := [[], [1], [1, 1], [1, 1, 1]],
        tree :=
          Node ''blockquote'' [] []
            [Node ''span'' [] [] [],
             Node ''del'' [] []
               [Node ''span'' [] [] [],
                Node ''b'' [] []
                  [Node ''span'' [] [] [],
                   Node ''i'' [] []
                     [Node ''span'' [] [] [], Node ''code'' [] ''b'' [],
                      Node ''span'' [] [] []]]]]\<rparr>)) \<and>
   path_tags
     (Node ''blockquote'' [] []
        [Node ''span'' [] [] [],
         Node ''del'' [] []
           [Node ''span'' [] [] [],
            Node ''b'' [] []
              [Node ''span'' [] [] [],
               Node ''i'' [] []
                 [Node ''span'' [] [] [], Node ''code'' [] ''b'' [],
                  Node ''span'' [] [] []]]]])
     [1, 1, 1, 1] = [''blockquote'', ''del'', ''b'', ''i'', ''code''] \<and>
   \<not> code_outermost_ok code_tag []
     (Node ''blockquote'' [] []
        [Node ''span'' [] [] [],
         Node ''del'' [] []
           [Node ''span'' [] [] [],
            Node ''b'' [] []
              [Node ''span'' [] [] [],
               Node ''i'' [] []
                 [Node ''span'' [] [] [], Node ''code'' [] ''b'' [],
                  Node ''span'' [] [] []]]]])"
proof (intro conjI)
  show "parse_code (text_filler ''code'') ''**__~~``b``'' (text_filler ''span'')
       (reset (elem ''blockquote'')) =
     Some (Inr ((reset (elem ''blockquote''))
       \<lparr>spoiler := True, bold := True, italic := True,
        parents := [[], [1], [1, 1], [1, 1, 1]],
        tree :=
          Node ''blockquote'' [] []
            [Node ''span'' [] [] [],
             Node ''del'' [] []
               [Node ''span'' [] [] [],
                Node ''b'' [] []
                  [Node ''span'' [] [] [],
                   Node ''i'' [] []
                     [Node ''span'' [] [] [], Node ''code'' [] ''b'' [],
                      Node ''span'' [] [] []]]]]\<rparr>))"
    by (simp add: run_simps)
qed (simp_all add: code_outermost_clash_def code_outermost_level_def code_tag_def)

text \<open>
  C2 (the scan primitive). For a non-empty delimiter, hence for every two-character one:
  when the delimiter is not found the filler runs on the whole fragment and the scan
  stops; when it is found the filler runs on the text before it, then the toggle once,
  then the scan goes on with the text after it. Equivalently the scan is the filler on
  each of the pieces of the fragment split at the delimiters, from left to right, with
  one toggle between two neighbours: with \<open>k\<close> occurrences there are \<open>k + 1\<close> pieces
  (possibly empty, none holding the delimiter, and joined by the delimiter they give
  the fragment back), the toggle is invoked \<open>k\<close> times and the filler \<open>k + 1\<close> times.
\<close>

theorem parse_string_scan:
  assumes "sep \<noteq> []"
  shows "(find_str frag sep = None \<longrightarrow>
            parse_string frag sep filler on_match st = filler frag st) \<and>
         (\<forall>i. find_str frag sep = Some i \<longrightarrow>
            parse_string frag sep filler on_match st =
              then_do (filler (take i frag) st) (\<lambda>st1.
              then_do (on_match st1)
                (parse_string (drop (i + length sep) frag) sep filler on_match))) \<and>
         parse_string frag sep filler on_match st =
           run_pieces filler on_match (pieces sep frag) st \<and>
         length (pieces sep frag) = count_sep sep frag + 1 \<and>
         join_sep sep (pieces sep frag) = frag \<and>
         (\<forall>p \<in> set (pieces sep frag). find_str p sep = None) \<and>
         parse_string frag sep log_filler log_toggle [] = Some (Inr (calls (pieces sep frag))) \<and>
         toggle_count (calls (pieces sep frag)) = count_sep sep frag \<and>
         filler_args (calls (pieces sep frag)) = pieces sep frag"
proof (intro conjI allI impI ballI)
  assume "find_str frag sep = None"
  then show "parse_string frag sep filler on_match st = filler frag st"
    by (subst parse_string.simps) simp
next
  fix i assume "find_str frag sep = Some i"
  then show "parse_string frag sep filler on_match st =
              then_do (filler (take i frag) st) (\<lambda>st1.
              then_do (on_match st1)
                (parse_string (drop (i + length sep) frag) sep filler on_match))"
    by (subst parse_string.simps) (simp add: then_do_def split: option.splits sum.splits)
next
  show "parse_string frag sep filler on_match st = run_pieces filler on_match (pieces sep frag) st"
    using parse_string_pieces[OF assms] .
next
  show "length (pieces sep frag) = count_sep sep frag + 1" using length_pieces[OF assms] .
next
  show "join_sep sep (pieces sep frag) = frag" using join_pieces[OF assms] .
next
  fix p assume "p \<in> set (pieces sep frag)"
  then show "find_str p sep = None" using pieces_no_sep[OF assms] by simp
next
  show "parse_string frag sep log_filler log_toggle [] = Some (Inr (calls (pieces sep frag)))"
    by (simp add: parse_string_pieces[OF assms] run_pieces_log[OF pieces_not_Nil])
next
  show "toggle_count (calls (pieces sep frag)) = count_sep sep frag"
    by (simp add: toggle_count_calls length_pieces[OF assms])
next
  show "filler_args (calls (pieces sep frag)) = pieces sep frag" by (rule filler_args_calls)
qed

theorem parse_string_scan_witness:
  "''**'' \<noteq> [] \<and> pieces ''**'' ''**x**y***z'' = ['''', ''x'', ''y'', ''*z''] \<and>
   count_sep ''**'' ''**x**y***z'' = 3 \<and>
   parse_string ''**x**y***z'' ''**'' log_filler log_toggle [] =
     Some (Inr [Filler '''', Toggle, Filler ''x'', Toggle, Filler ''y'', Toggle, Filler ''*z''])"
proof -
  have p: "pieces ''**'' ''**x**y***z'' = ['''', ''x'', ''y'', ''*z'']"
    by (simp add: pieces.simps)
  have ne: "''**'' \<noteq> []" by simp
  from parse_string_scan[OF ne, of "''**x**y***z''" log_filler log_toggle "[]"]
  have "parse_string ''**x**y***z'' ''**'' log_filler log_toggle [] =
          Some (Inr (calls (pieces ''**'' ''**x**y***z'')))"
    and "length (pieces ''**'' ''**x**y***z'') = count_sep ''**'' ''**x**y***z'' + 1"
    by blast+
  then show ?thesis unfolding p using ne by simp
qed

text \<open>
  C3 (quote markers inside a code span), at the fragment \<open>>>x\<close> with the code flag set.
  The two leading \<open>>\<close> are stripped, and \<^verbatim>\<open>highlight_syntax\<close> gets \<open>x\<close> and the state
  as it was: no \<open>span\<close> of \<open>&gt;\<close> has been appended, since \<open>num_quotes\<close> is still 0.
\<close>

theorem code_quotes_not_emitted:
  "code_filler highlight_syntax fn ''>>x'' ((reset r)\<lparr>code := True\<rparr>) =
     highlight_syntax ''x'' ((reset r)\<lparr>code := True\<rparr>)"
  by (simp add: code_filler_def reset_def)

text \<open>
  C4, as the code has it. \<^verbatim>\<open>ascend()\<close> makes no check. On every non-empty stack, the
  stack that holds only the root included, it returns normally and has popped exactly
  the top entry; no flag, no counter and no node of the tree changes. Popping the root
  leaves the stack empty. Only on the empty stack is the call undefined.
\<close>

theorem ascend_pops:
  fixes st :: render_state
  shows "(parents st \<noteq> [] \<longrightarrow>
            (\<exists>st'. ascend st = Inr st' \<and> parents st' = butlast (parents st) \<and>
                   length (parents st') + 1 = length (parents st) \<and>
                   flags st' = flags st \<and> tree st' = tree st)) \<and>
         (length (parents st) = 1 \<longrightarrow> ascend st = Inr (st\<lparr>parents := []\<rparr>)) \<and>
         (parents st = [] \<longrightarrow> ascend st = Inl PopEmpty)"
proof (intro conjI impI)
  assume "parents st \<noteq> []"
  then show "\<exists>st'. ascend st = Inr st' \<and> parents st' = butlast (parents st) \<and>
                   length (parents st') + 1 = length (parents st) \<and>
                   flags st' = flags st \<and> tree st' = tree st"
    by (simp add: ascend_def flags_def)
next
  assume "length (parents st) = 1"
  then obtain p where "parents st = [p]" by (cases "parents st") auto
  then show "ascend st = Inr (st\<lparr>parents := []\<rparr>)" by (simp add: ascend_def)
next
  assume "parents st = []"
  then show "ascend st = Inl PopEmpty" by (simp add: ascend_def)
qed

theorem ascend_pops_witness:
  "parents ((reset (elem ''blockquote''))\<lparr>parents := [[], [0]]\<rparr>) \<noteq> [] \<and>
   (\<exists>st'. ascend ((reset (elem ''blockquote''))\<lparr>parents := [[], [0]]\<rparr>) = Inr st' \<and>
          parents st' = [[]])"
  using ascend_pops[of "(reset (elem ''blockquote''))\<lparr>parents := [[], [0]]\<rparr>"]
  by (auto simp: reset_def)

text \<open>
  C4, as the claim states it, fails: with only the root on the stack \<^verbatim>\<open>ascend()\<close> does
  not fail, it pops the root and returns with an empty stack.
\<close>

theorem ascend_root_counterexample:
  "length (parents (reset (elem ''blockquote''))) = 1 \<and>
   ascend (reset (elem ''blockquote'')) = Inr ((reset (elem ''blockquote''))\<lparr>parents := []\<rparr>)"
  by (simp add: ascend_def reset_def)

text \<open>
  C5 (a toggle leaves the inner flags alone). Whenever the spoiler toggle returns, it
  has flipped \<^verbatim>\<open>state.spoiler\<close> and \<^verbatim>\<open>state.bold\<close>, \<^verbatim>\<open>state.italic\<close> and \<^verbatim>\<open>state.code\<close>
  are as before; whenever the bold toggle returns, it has flipped \<^verbatim>\<open>state.bold\<close> and
  the other three are as before. On a state that satisfies the invariant of the render
  pass both return, and the invariant holds again: the inner levels that were open have
  been left, innermost first, and are open again, in the same order, as the innermost
  entries of the stack, below the new or without the removed element.
\<close>

theorem toggle_frame:
  "(\<forall>st'. spoiler_toggle st = Inr st' \<longrightarrow>
      spoiler st' = (\<not> spoiler st) \<and> bold st' = bold st \<and> italic st' = italic st \<and>
      code st' = code st) \<and>
   (\<forall>st'. bold_toggle st = Inr st' \<longrightarrow>
      bold st' = (\<not> bold st) \<and> italic st' = italic st \<and> spoiler st' = spoiler st \<and>
      code st' = code st) \<and>
   (Inv C n st \<longrightarrow>
      (\<exists>st'. spoiler_toggle st = Inr st' \<and> Inv C n st' \<and>
             chain (tree st') (last (take n (parents st'))) (drop n (parents st'))
               ((if spoiler st then [] else [''del'']) @ (if bold st then [''b''] else []) @
                (if italic st then [''i''] else []))) \<and>
      (\<exists>st'. bold_toggle st = Inr st' \<and> Inv C n st' \<and>
             chain (tree st') (last (take n (parents st'))) (drop n (parents st'))
               ((if spoiler st then [''del''] else []) @ (if bold st then [] else [''b'']) @
                (if italic st then [''i''] else []))))"
proof (intro conjI allI impI)
  fix st' assume "spoiler_toggle st = Inr st'"
  from spoiler_toggle_moved[OF this] obtain s where
    s: "moved (if spoiler st then - 1 else 1) st s" "st' = s\<lparr>spoiler := \<not> spoiler s\<rparr>" by auto
  from moved_flags[OF s(1)] s(2)
  show "spoiler st' = (\<not> spoiler st)" "bold st' = bold st" "italic st' = italic st"
    "code st' = code st" by simp_all
next
  fix st' assume "bold_toggle st = Inr st'"
  from bold_toggle_moved[OF this] obtain s where
    s: "moved (if bold st then - 1 else 1) st s" "st' = s\<lparr>bold := \<not> bold s\<rparr>" by auto
  from moved_flags[OF s(1)] s(2)
  show "bold st' = (\<not> bold st)" "italic st' = italic st" "spoiler st' = spoiler st"
    "code st' = code st" by simp_all
next
  assume i: "Inv C n st"
  from spoiler_toggle_Inv[OF i] obtain st' where
    st': "spoiler_toggle st = Inr st'" "Inv C n st'"
      "flags st' = flags (st\<lparr>spoiler := \<not> spoiler st\<rparr>)" by blast
  from flagsD[OF st'(3)] have "open_tags st' =
      (if spoiler st then [] else [''del'']) @ (if bold st then [''b''] else []) @
      (if italic st then [''i''] else [])"
    by (simp add: open_tags_def)
  with st'(1,2)
  show "\<exists>st'. spoiler_toggle st = Inr st' \<and> Inv C n st' \<and>
             chain (tree st') (last (take n (parents st'))) (drop n (parents st'))
               ((if spoiler st then [] else [''del'']) @ (if bold st then [''b''] else []) @
                (if italic st then [''i''] else []))"
    by (auto simp: Inv_def wfs_def)
next
  assume i: "Inv C n st"
  from bold_toggle_Inv[OF i] obtain st' where
    st': "bold_toggle st = Inr st'" "Inv C n st'"
      "flags st' = flags (st\<lparr>bold := \<not> bold st\<rparr>)" by blast
  from flagsD[OF st'(3)] have "open_tags st' =
      (if spoiler st then [''del''] else []) @ (if bold st then [] else [''b'']) @
      (if italic st then [''i''] else [])"
    by (simp add: open_tags_def)
  with st'(1,2)
  show "\<exists>st'. bold_toggle st = Inr st' \<and> Inv C n st' \<and>
             chain (tree st') (last (take n (parents st'))) (drop n (parents st'))
               ((if spoiler st then [''del''] else []) @ (if bold st then [] else [''b'']) @
                (if italic st then [''i''] else []))"
    by (auto simp: Inv_def wfs_def)
qed

theorem toggle_frame_witness:
  "Inv code_tag 1
     \<lparr>spoiler = False, quote = False, code = False, bold = True, italic = True,
      have_syncwatch = False, successive_newlines = 0, dice_index = 0,
      parents = [[], [0], [0, 0]],
      tree = Node ''blockquote'' [] [] [Node ''b'' [] [] [Node ''i'' [] [] []]]\<rparr> \<and>
   spoiler_toggle
     \<lparr>spoiler = False, quote = False, code = False, bold = True, italic = True,
      have_syncwatch = False, successive_newlines = 0, dice_index = 0,
      parents = [[], [0], [0, 0]],
      tree = Node ''blockquote'' [] [] [Node ''b'' [] [] [Node ''i'' [] [] []]]\<rparr> =
   Inr
     \<lparr>spoiler = True, quote = False, code = False, bold = True, italic = True,
      have_syncwatch = False, successive_newlines = 0, dice_index = 0,
      parents = [[], [1], [1, 0], [1, 0, 0]],
      tree = Node ''blockquote'' [] []
               [Node ''b'' [] [] [Node ''i'' [] [] []],
                Node ''del'' [] [] [Node ''b'' [] [] [Node ''i'' [] [] []]]]\<rparr> \<and>
   Inv code_tag 1
     \<lparr>spoiler = True, quote = False, code = False, bold = True, italic = True,
      have_syncwatch = False, successive_newlines = 0, dice_index = 0,
      parents = [[], [1], [1, 0], [1, 0, 0]],
      tree = Node ''blockquote'' [] []
               [Node ''b'' [] [] [Node ''i'' [] [] []],
                Node ''del'' [] [] [Node ''b'' [] [] [Node ''i'' [] [] []]]]\<rparr>"
  (is "Inv code_tag 1 ?s \<and> spoiler_toggle ?s = Inr ?t \<and> Inv code_tag 1 ?t")
proof -
  have i: "Inv code_tag 1 ?s"
    by (simp add: Inv_def wfs_def open_tags_def level_def formatting_def code_tag_def)
  have r: "spoiler_toggle ?s = Inr ?t"
    by (simp add: spoiler_toggle_def ascend_def append_node_def elem_def Let_def)
  from toggle_frame[of ?s code_tag 1] i obtain st' where
    "spoiler_toggle ?s = Inr st'" "Inv code_tag 1 st'" by blast
  with r have "Inv code_tag 1 ?t" by simp
  with i r show ?thesis by blast
qed

text \<open>
  C6 (toggle involution). For each of the four levels: a toggle that returns has
  flipped the flag of its level, and has added one element of the level to the tree
  when the flag was unset (none when it was set; the code toggle never adds one and
  leaves tree and stack alone); when it returns twice in succession the flag is again
  what it was before the first, and on a state that satisfies the invariant of the
  render pass it does return twice, with the open elements and the depth of the stack
  as they were. A fragment with an even number \<open>k\<close> of one delimiter leaves the flag
  of that level as it found it; it adds \<open>k div 2\<close> elements of the level (when \<open>fn\<close>
  adds none), and no element of a level stands below an element of the same level:
  the spans are closed again and follow one another. The pieces of a fragment split at
  the code delimiter go in turn to the scanners and to the highlighter.
\<close>

theorem toggle_involution:
  "(\<forall>s1. toggle_of l st = Inr s1 \<longrightarrow>
      level_flag l s1 = (\<not> level_flag l st) \<and>
      (case level_elem l of
         None \<Rightarrow> tree s1 = tree st \<and> parents s1 = parents st
       | Some t \<Rightarrow> count_tag t (tree s1) =
                    count_tag t (tree st) + (if level_flag l st then 0 else 1))) \<and>
   (\<forall>s1 s2. toggle_of l st = Inr s1 \<and> toggle_of l s1 = Inr s2 \<longrightarrow>
      level_flag l s2 = level_flag l st) \<and>
   (Inv C n st \<longrightarrow>
      (\<exists>s1 s2. toggle_of l st = Inr s1 \<and> toggle_of l s1 = Inr s2 \<and> Inv C n s2 \<and>
         level_flag l s1 = (\<not> level_flag l st) \<and>
         open_tags s2 = open_tags st \<and> length (parents s2) = length (parents st))) \<and>
   (keeps C n fn \<and> Inv C n st \<and> even (count_sep ''**'' frag) \<longrightarrow>
      (\<exists>st'. parse_spoilers frag fn st = Some (Inr st') \<and> spoiler st' = spoiler st \<and>
         Inv C n st' \<and> nested_ok C [] (tree st') \<and>
         (adds_no_formatting fn \<longrightarrow>
            count_tag ''del'' (tree st') =
              count_tag ''del'' (tree st) + count_sep ''**'' frag div 2))) \<and>
   (keeps C n fn \<and> Inv C n st \<and> even (count_sep ''__'' frag) \<longrightarrow>
      (\<exists>st'. parse_bolds frag fn st = Some (Inr st') \<and> bold st' = bold st \<and>
         Inv C n st' \<and> nested_ok C [] (tree st') \<and>
         (adds_no_formatting fn \<longrightarrow>
            count_tag ''b'' (tree st') =
              count_tag ''b'' (tree st) + count_sep ''__'' frag div 2))) \<and>
   (keeps C n fn \<and> Inv C n st \<and> even (count_sep ''~~'' frag) \<longrightarrow>
      (\<exists>st'. parse_italics frag fn st = Some (Inr st') \<and> italic st' = italic st \<and>
         Inv C n st' \<and> nested_ok C [] (tree st') \<and>
         (adds_no_formatting fn \<longrightarrow>
            count_tag ''i'' (tree st') =
              count_tag ''i'' (tree st) + count_sep ''~~'' frag div 2))) \<and>
   (keeps C n fn \<and> keeps C n highlight_syntax \<and> Inv C n st \<and> even (count_sep ''``'' frag) \<longrightarrow>
      (\<exists>st'. parse_code highlight_syntax frag fn st = Some (Inr st') \<and> code st' = code st \<and>
         Inv C n st' \<and> nested_ok C [] (tree st') \<and>
         parse_code highlight_syntax frag fn st =
           run_code_pieces highlight_syntax fn (code st) (pieces ''``'' frag) st)) \<and>
   clash C ''del'' ''del'' \<and> clash C ''b'' ''b'' \<and> clash C ''i'' ''i''"
proof (intro conjI allI impI)
  fix s1 assume "toggle_of l st = Inr s1"
  from toggle_of_effect[OF this]
  show "level_flag l s1 = (\<not> level_flag l st)"
    and "case level_elem l of
         None \<Rightarrow> tree s1 = tree st \<and> parents s1 = parents st
       | Some t \<Rightarrow> count_tag t (tree s1) =
                    count_tag t (tree st) + (if level_flag l st then 0 else 1)"
    by simp_all
next
  fix s1 s2 assume "toggle_of l st = Inr s1 \<and> toggle_of l s1 = Inr s2"
  then show "level_flag l s2 = level_flag l st" using toggle_twice_flag by blast
next
  assume "Inv C n st"
  from toggle_twice_Inv[OF this, of l] obtain s1 s2 where
    s: "toggle_of l st = Inr s1" "toggle_of l s1 = Inr s2" "Inv C n s2"
      "open_tags s2 = open_tags st" "length (parents s2) = length (parents st)" by blast
  from toggle_of_effect[OF s(1)] have "level_flag l s1 = (\<not> level_flag l st)" by simp
  with s show "\<exists>s1 s2. toggle_of l st = Inr s1 \<and> toggle_of l s1 = Inr s2 \<and> Inv C n s2 \<and>
         level_flag l s1 = (\<not> level_flag l st) \<and>
         open_tags s2 = open_tags st \<and> length (parents s2) = length (parents st)"
    by blast
next
  assume a: "keeps C n fn \<and> Inv C n st \<and> even (count_sep ''**'' frag)"
  then have k: "keeps C n fn" and i: "Inv C n st" and e: "even (count_sep ''**'' frag)"
    by simp_all
  from parse_spoilers_ok[OF k i, of frag] obtain st' where
    s: "parse_spoilers frag fn st = Some (Inr st')" "Inv C n st'"
      "spoiler st' = (spoiler st \<noteq> odd (count_sep ''**'' frag))" by blast
  have "count_tag ''del'' (tree st') = count_tag ''del'' (tree st) + count_sep ''**'' frag div 2"
    if q: "adds_no_formatting fn"
  proof -
    from parse_spoilers_count[OF k q i, of frag] obtain s' where
      s': "parse_spoilers frag fn st = Some (Inr s')"
        "count_tag ''del'' (tree s') =
           count_tag ''del'' (tree st) + opens (spoiler st) (count_sep ''**'' frag)" by blast
    from scanner_count_unique[OF s(1) s'(1)] s'(2) opens_even[OF e] show ?thesis by simp
  qed
  with s e Inv_nested_ok[OF s(2)]
  show "\<exists>st'. parse_spoilers frag fn st = Some (Inr st') \<and> spoiler st' = spoiler st \<and>
         Inv C n st' \<and> nested_ok C [] (tree st') \<and>
         (adds_no_formatting fn \<longrightarrow>
            count_tag ''del'' (tree st') =
              count_tag ''del'' (tree st) + count_sep ''**'' frag div 2)"
    by auto
next
  assume a: "keeps C n fn \<and> Inv C n st \<and> even (count_sep ''__'' frag)"
  then have k: "keeps C n fn" and i: "Inv C n st" and e: "even (count_sep ''__'' frag)"
    by simp_all
  from parse_bolds_ok[OF k i, of frag] obtain st' where
    s: "parse_bolds frag fn st = Some (Inr st')" "Inv C n st'"
      "bold st' = (bold st \<noteq> odd (count_sep ''__'' frag))" by blast
  have "count_tag ''b'' (tree st') = count_tag ''b'' (tree st) + count_sep ''__'' frag div 2"
    if q: "adds_no_formatting fn"
  proof -
    from parse_bolds_count[OF k q i, of frag] obtain s' where
      s': "parse_bolds frag fn st = Some (Inr s')"
        "count_tag ''b'' (tree s') =
           count_tag ''b'' (tree st) + opens (bold st) (count_sep ''__'' frag)" by blast
    from scanner_count_unique[OF s(1) s'(1)] s'(2) opens_even[OF e] show ?thesis by simp
  qed
  with s e Inv_nested_ok[OF s(2)]
  show "\<exists>st'. parse_bolds frag fn st = Some (Inr st') \<and> bold st' = bold st \<and>
         Inv C n st' \<and> nested_ok C [] (tree st') \<and>
         (adds_no_formatting fn \<longrightarrow>
            count_tag ''b'' (tree st') =
              count_tag ''b'' (tree st) + count_sep ''__'' frag div 2)"
    by auto
next
  assume a: "keeps C n fn \<and> Inv C n st \<and> even (count_sep ''~~'' frag)"
  then have k: "keeps C n fn" and i: "Inv C n st" and e: "even (count_sep ''~~'' frag)"
    by simp_all
  from parse_italics_ok[OF k i, of frag] obtain st' where
    s: "parse_italics frag fn st = Some (Inr st')" "Inv C n st'"
      "italic st' = (italic st \<noteq> odd (count_sep ''~~'' frag))" by blast
  have "count_tag ''i'' (tree st') = count_tag ''i'' (tree st) + count_sep ''~~'' frag div 2"
    if q: "adds_no_formatting fn"
  proof -
    from parse_italics_count[OF k q i, of frag] obtain s' where
      s': "parse_italics frag fn st = Some (Inr s')"
        "count_tag ''i'' (tree s') =
           count_tag ''i'' (tree st) + opens (italic st) (count_sep ''~~'' frag)" by blast
    from scanner_count_unique[OF s(1) s'(1)] s'(2) opens_even[OF e] show ?thesis by simp
  qed
  with s e Inv_nested_ok[OF s(2)]
  show "\<exists>st'. parse_italics frag fn st = Some (Inr st') \<and> italic st' = italic st \<and>
         Inv C n st' \<and> nested_ok C [] (tree st') \<and>
         (adds_no_formatting fn \<longrightarrow>
            count_tag ''i'' (tree st') =
              count_tag ''i'' (tree st) + count_sep ''~~'' frag div 2)"
    by auto
next
  assume a: "keeps C n fn \<and> keeps C n highlight_syntax \<and> Inv C n st \<and> even (count_sep ''``'' frag)"
  then have k: "keeps C n fn" and h: "keeps C n highlight_syntax" and i: "Inv C n st" by simp_all
  from parse_code_ok[OF k h i, of frag] a parse_code_pieces[OF k h i, of frag]
  show "\<exists>st'. parse_code highlight_syntax frag fn st = Some (Inr st') \<and> code st' = code st \<and>
         Inv C n st' \<and> nested_ok C [] (tree st') \<and>
         parse_code highlight_syntax frag fn st =
           run_code_pieces highlight_syntax fn (code st) (pieces ''``'' frag) st"
    using Inv_nested_ok by auto
qed (simp_all add: clash_pairs)

theorem toggle_involution_witness:
  "keeps code_tag 1 (text_filler ''span'') \<and> keeps code_tag 1 (text_filler ''code'') \<and>
   adds_no_formatting (text_filler ''span'') \<and>
   Inv code_tag 1 (reset (elem ''blockquote'')) \<and>
   parse_spoilers ''**x**y**z**'' (text_filler ''span'') (reset (elem ''blockquote'')) =
     Some (Inr ((reset (elem ''blockquote''))\<lparr>tree :=
       Node ''blockquote'' [] []
         [Node ''span'' [] [] [],
          Node ''del'' [] [] [Node ''span'' [] ''x'' []],
          Node ''span'' [] ''y'' [],
          Node ''del'' [] [] [Node ''span'' [] ''z'' []],
          Node ''span'' [] [] []]\<rparr>)) \<and>
   count_tag ''del''
       (Node ''blockquote'' [] []
         [Node ''span'' [] [] [],
          Node ''del'' [] [] [Node ''span'' [] ''x'' []],
          Node ''span'' [] ''y'' [],
          Node ''del'' [] [] [Node ''span'' [] ''z'' []],
          Node ''span'' [] [] []]) = 2 \<and>
   nested_ok code_tag []
       (Node ''blockquote'' [] []
         [Node ''span'' [] [] [],
          Node ''del'' [] [] [Node ''span'' [] ''x'' []],
          Node ''span'' [] ''y'' [],
          Node ''del'' [] [] [Node ''span'' [] ''z'' []],
          Node ''span'' [] [] []]) \<and>
   parse_bolds ''__x__y__z__'' (text_filler ''span'') (reset (elem ''blockquote'')) =
     Some (Inr ((reset (elem ''blockquote''))\<lparr>tree :=
       Node ''blockquote'' [] []
         [Node ''span'' [] [] [],
          Node ''b'' [] [] [Node ''span'' [] ''x'' []],
          Node ''span'' [] ''y'' [],
          Node ''b'' [] [] [Node ''span'' [] ''z'' []],
          Node ''span'' [] [] []]\<rparr>)) \<and>
   count_tag ''b''
       (Node ''blockquote'' [] []
         [Node ''span'' [] [] [],
          Node ''b'' [] [] [Node ''span'' [] ''x'' []],
          Node ''span'' [] ''y'' [],
          Node ''b'' [] [] [Node ''span'' [] ''z'' []],
          Node ''span'' [] [] []]) = 2 \<and>
   parse_italics ''~~x~~'' (text_filler ''span'') (reset (elem ''blockquote'')) =
     Some (Inr ((reset (elem ''blockquote''))\<lparr>tree :=
       Node ''blockquote'' [] []
         [Node ''span'' [] [] [],
          Node ''i'' [] [] [Node ''span'' [] ''x'' []],
          Node ''span'' [] [] []]\<rparr>)) \<and>
   count_tag ''i''
       (Node ''blockquote'' [] []
         [Node ''span'' [] [] [],
          Node ''i'' [] [] [Node ''span'' [] ''x'' []],
          Node ''span'' [] [] []]) = 1 \<and>
   parse_code (text_filler ''code'') ''``x``y``z``'' (text_filler ''span'')
       (reset (elem ''blockquote'')) =
     Some (Inr ((reset (elem ''blockquote''))\<lparr>tree :=
       Node ''blockquote'' [] []
         [Node ''span'' [] [] [], Node ''code'' [] ''x'' [],
          Node ''span'' [] ''y'' [], Node ''code'' [] ''z'' [],
          Node ''span'' [] [] []]\<rparr>)) \<and>
   italic_toggle (reset (elem ''blockquote'')) =
     Inr ((reset (elem ''blockquote''))
       \<lparr>italic := True, parents := [[], [0]],
        tree := Node ''blockquote'' [] [] [Node ''i'' [] [] []]\<rparr>)"
proof -
  let ?s0 = "reset (elem ''blockquote'')"
  let ?ts = "Node ''blockquote'' [] []
         [Node ''span'' [] [] [],
          Node ''del'' [] [] [Node ''span'' [] ''x'' []],
          Node ''span'' [] ''y'' [],
          Node ''del'' [] [] [Node ''span'' [] ''z'' []],
          Node ''span'' [] [] []]"
  let ?tb = "Node ''blockquote'' [] []
         [Node ''span'' [] [] [],
          Node ''b'' [] [] [Node ''span'' [] ''x'' []],
          Node ''span'' [] ''y'' [],
          Node ''b'' [] [] [Node ''span'' [] ''z'' []],
          Node ''span'' [] [] []]"
  let ?ti = "Node ''blockquote'' [] []
         [Node ''span'' [] [] [],
          Node ''i'' [] [] [Node ''span'' [] ''x'' []],
          Node ''span'' [] [] []]"
  have cs: "count_sep ''**'' ''**x**y**z**'' = 4" by (simp add: count_sep.simps)
  have cb: "count_sep ''__'' ''__x__y__z__'' = 4" by (simp add: count_sep.simps)
  have ci: "count_sep ''~~'' ''~~x~~'' = 2" by (simp add: count_sep.simps)
  have c0: "count_tag t (tree ?s0) = 0" if "t \<noteq> ''blockquote''" for t
    using that by (auto simp: reset_def elem_def)
  have es: "parse_spoilers ''**x**y**z**'' (text_filler ''span'') ?s0 =
      Some (Inr (?s0\<lparr>tree := ?ts\<rparr>))" by (simp add: run_simps)
  have eb: "parse_bolds ''__x__y__z__'' (text_filler ''span'') ?s0 =
      Some (Inr (?s0\<lparr>tree := ?tb\<rparr>))" by (simp add: run_simps)
  have ei: "parse_italics ''~~x~~'' (text_filler ''span'') ?s0 =
      Some (Inr (?s0\<lparr>tree := ?ti\<rparr>))" by (simp add: run_simps)
  have ec: "parse_code (text_filler ''code'') ''``x``y``z``'' (text_filler ''span'') ?s0 =
     Some (Inr (?s0\<lparr>tree :=
       Node ''blockquote'' [] []
         [Node ''span'' [] [] [], Node ''code'' [] ''x'' [],
          Node ''span'' [] ''y'' [], Node ''code'' [] ''z'' [],
          Node ''span'' [] [] []]\<rparr>))" by (simp add: run_simps)
  have et: "italic_toggle ?s0 =
     Inr (?s0\<lparr>italic := True, parents := [[], [0]],
        tree := Node ''blockquote'' [] [] [Node ''i'' [] [] []]\<rparr>)"
    by (simp add: italic_toggle_def append_node_def reset_def elem_def Let_def)
  note k = keeps_span[of code_tag 1] and q = no_formatting_span
    and i = Inv_reset_blockquote
  note th = toggle_involution[of Spoiler ?s0 code_tag 1 "text_filler ''span''" _
      "text_filler ''code''"]
  have hs: "keeps code_tag 1 (text_filler ''span'') \<and> Inv code_tag 1 ?s0 \<and>
      even (count_sep ''**'' ''**x**y**z**'')" using k i cs by simp
  from th[of "''**x**y**z**''", THEN conjunct2, THEN conjunct2, THEN conjunct2,
      THEN conjunct1, rule_format, OF hs]
  obtain s1 where s1: "parse_spoilers ''**x**y**z**'' (text_filler ''span'') ?s0 = Some (Inr s1)"
    "nested_ok code_tag [] (tree s1)"
    "adds_no_formatting (text_filler ''span'') \<longrightarrow>
       count_tag ''del'' (tree s1) =
         count_tag ''del'' (tree ?s0) + count_sep ''**'' ''**x**y**z**'' div 2"
    by (elim exE conjE)
  from s1(1) es have "s1 = ?s0\<lparr>tree := ?ts\<rparr>" by (simp only: option.inject sum.inject)
  with s1(2,3) q cs c0[of "''del''"] have ns: "nested_ok code_tag [] ?ts"
    and ds: "count_tag ''del'' ?ts = 2" by simp_all
  have hb: "keeps code_tag 1 (text_filler ''span'') \<and> Inv code_tag 1 ?s0 \<and>
      even (count_sep ''__'' ''__x__y__z__'')" using k i cb by simp
  from th[of "''__x__y__z__''", THEN conjunct2, THEN conjunct2, THEN conjunct2,
      THEN conjunct2, THEN conjunct1, rule_format, OF hb]
  obtain s2 where s2: "parse_bolds ''__x__y__z__'' (text_filler ''span'') ?s0 = Some (Inr s2)"
    "adds_no_formatting (text_filler ''span'') \<longrightarrow>
       count_tag ''b'' (tree s2) =
         count_tag ''b'' (tree ?s0) + count_sep ''__'' ''__x__y__z__'' div 2"
    by (elim exE conjE)
  from s2(1) eb have "s2 = ?s0\<lparr>tree := ?tb\<rparr>" by (simp only: option.inject sum.inject)
  with s2(2) q cb c0[of "''b''"] have db: "count_tag ''b'' ?tb = 2" by simp
  have hi: "keeps code_tag 1 (text_filler ''span'') \<and> Inv code_tag 1 ?s0 \<and>
      even (count_sep ''~~'' ''~~x~~'')" using k i ci by simp
  from th[of "''~~x~~''", THEN conjunct2, THEN conjunct2, THEN conjunct2,
      THEN conjunct2, THEN conjunct2, THEN conjunct1, rule_format, OF hi]
  obtain s3 where s3: "parse_italics ''~~x~~'' (text_filler ''span'') ?s0 = Some (Inr s3)"
    "adds_no_formatting (text_filler ''span'') \<longrightarrow>
       count_tag ''i'' (tree s3) =
         count_tag ''i'' (tree ?s0) + count_sep ''~~'' ''~~x~~'' div 2"
    by (elim exE conjE)
  from s3(1) ei have "s3 = ?s0\<lparr>tree := ?ti\<rparr>" by (simp only: option.inject sum.inject)
  with s3(2) q ci c0[of "''i''"] have di: "count_tag ''i'' ?ti = 1" by simp
  show ?thesis
    by (intro conjI) (rule k keeps_code q i es ds ns eb db ei di ec et)+
qed

text \<open>
  C7 (unmatched delimiters). Let the callables keep the invariant of the render pass and
  the pass start in a state that satisfies it. Then for every fragment, whether its
  delimiters are matched or not, the scanner of each level returns a state and no
  error; the flag of the level has been flipped once for every delimiter, so that after
  an odd number of them an unset flag is left set; and a second scan, started from the
  state the first has left, goes on from there: the first delimiter it meets flips
  the flag back, and its first piece is appended inside the element left open.
\<close>

theorem unmatched_delimiters:
  assumes "keeps C n fn" and "keeps C n highlight_syntax" and "Inv C n st"
  shows
   "(\<exists>s1 s2. parse_spoilers frag fn st = Some (Inr s1) \<and> Inv C n s1 \<and>
        spoiler s1 = (spoiler st \<noteq> odd (count_sep ''**'' frag)) \<and>
        parse_spoilers frag2 fn s1 = Some (Inr s2) \<and> Inv C n s2 \<and>
        spoiler s2 = (spoiler st \<noteq> odd (count_sep ''**'' frag + count_sep ''**'' frag2))) \<and>
    (\<exists>s1 s2. parse_bolds frag fn st = Some (Inr s1) \<and> Inv C n s1 \<and>
        bold s1 = (bold st \<noteq> odd (count_sep ''__'' frag)) \<and>
        parse_bolds frag2 fn s1 = Some (Inr s2) \<and> Inv C n s2 \<and>
        bold s2 = (bold st \<noteq> odd (count_sep ''__'' frag + count_sep ''__'' frag2))) \<and>
    (\<exists>s1 s2. parse_italics frag fn st = Some (Inr s1) \<and> Inv C n s1 \<and>
        italic s1 = (italic st \<noteq> odd (count_sep ''~~'' frag)) \<and>
        parse_italics frag2 fn s1 = Some (Inr s2) \<and> Inv C n s2 \<and>
        italic s2 = (italic st \<noteq> odd (count_sep ''~~'' frag + count_sep ''~~'' frag2))) \<and>
    (\<exists>s1 s2. parse_code highlight_syntax frag fn st = Some (Inr s1) \<and> Inv C n s1 \<and>
        code s1 = (code st \<noteq> odd (count_sep ''``'' frag)) \<and>
        parse_code highlight_syntax frag2 fn s1 = Some (Inr s2) \<and> Inv C n s2 \<and>
        code s2 = (code st \<noteq> odd (count_sep ''``'' frag + count_sep ''``'' frag2)))"
proof (intro conjI)
  from parse_spoilers_ok[OF assms(1,3), of frag] obtain s1 where
    s1: "parse_spoilers frag fn st = Some (Inr s1)" "Inv C n s1"
      "spoiler s1 = (spoiler st \<noteq> odd (count_sep ''**'' frag))" by blast
  from parse_spoilers_ok[OF assms(1) s1(2), of frag2] obtain s2 where
    s2: "parse_spoilers frag2 fn s1 = Some (Inr s2)" "Inv C n s2"
      "spoiler s2 = (spoiler s1 \<noteq> odd (count_sep ''**'' frag2))" by blast
  have "spoiler s2 = (spoiler st \<noteq> odd (count_sep ''**'' frag + count_sep ''**'' frag2))"
    unfolding s2(3) s1(3) by (rule xor_odd_add)
  with s1 s2 show "\<exists>s1 s2. parse_spoilers frag fn st = Some (Inr s1) \<and> Inv C n s1 \<and>
        spoiler s1 = (spoiler st \<noteq> odd (count_sep ''**'' frag)) \<and>
        parse_spoilers frag2 fn s1 = Some (Inr s2) \<and> Inv C n s2 \<and>
        spoiler s2 = (spoiler st \<noteq> odd (count_sep ''**'' frag + count_sep ''**'' frag2))"
    by blast
next
  from parse_bolds_ok[OF assms(1,3), of frag] obtain s1 where
    s1: "parse_bolds frag fn st = Some (Inr s1)" "Inv C n s1"
      "bold s1 = (bold st \<noteq> odd (count_sep ''__'' frag))" by blast
  from parse_bolds_ok[OF assms(1) s1(2), of frag2] obtain s2 where
    s2: "parse_bolds frag2 fn s1 = Some (Inr s2)" "Inv C n s2"
      "bold s2 = (bold s1 \<noteq> odd (count_sep ''__'' frag2))" by blast
  have "bold s2 = (bold st \<noteq> odd (count_sep ''__'' frag + count_sep ''__'' frag2))"
    unfolding s2(3) s1(3) by (rule xor_odd_add)
  with s1 s2 show "\<exists>s1 s2. parse_bolds frag fn st = Some (Inr s1) \<and> Inv C n s1 \<and>
        bold s1 = (bold st \<noteq> odd (count_sep ''__'' frag)) \<and>
        parse_bolds frag2 fn s1 = Some (Inr s2) \<and> Inv C n s2 \<and>
        bold s2 = (bold st \<noteq> odd (count_sep ''__'' frag + count_sep ''__'' frag2))"
    by blast
next
  from parse_italics_ok[OF assms(1,3), of frag] obtain s1 where
    s1: "parse_italics frag fn st = Some (Inr s1)" "Inv C n s1"
      "italic s1 = (italic st \<noteq> odd (count_sep ''~~'' frag))" by blast
  from parse_italics_ok[OF assms(1) s1(2), of frag2] obtain s2 where
    s2: "parse_italics frag2 fn s1 = Some (Inr s2)" "Inv C n s2"
      "italic s2 = (italic s1 \<noteq> odd (count_sep ''~~'' frag2))" by blast
  have "italic s2 = (italic st \<noteq> odd (count_sep ''~~'' frag + count_sep ''~~'' frag2))"
    unfolding s2(3) s1(3) by (rule xor_odd_add)
  with s1 s2 show "\<exists>s1 s2. parse_italics frag fn st = Some (Inr s1) \<and> Inv C n s1 \<and>
        italic s1 = (italic st \<noteq> odd (count_sep ''~~'' frag)) \<and>
        parse_italics frag2 fn s1 = Some (Inr s2) \<and> Inv C n s2 \<and>
        italic s2 = (italic st \<noteq> odd (count_sep ''~~'' frag + count_sep ''~~'' frag2))"
    by blast
next
  from parse_code_ok[OF assms(1,2,3), of frag] obtain s1 where
    s1: "parse_code highlight_syntax frag fn st = Some (Inr s1)" "Inv C n s1"
      "code s1 = (code st \<noteq> odd (count_sep ''``'' frag))" by blast
  from parse_code_ok[OF assms(1,2) s1(2), of frag2] obtain s2 where
    s2: "parse_code highlight_syntax frag2 fn s1 = Some (Inr s2)" "Inv C n s2"
      "code s2 = (code s1 \<noteq> odd (count_sep ''``'' frag2))" by blast
  have "code s2 = (code st \<noteq> odd (count_sep ''``'' frag + count_sep ''``'' frag2))"
    unfolding s2(3) s1(3) by (rule xor_odd_add)
  with s1 s2 show "\<exists>s1 s2. parse_code highlight_syntax frag fn st = Some (Inr s1) \<and> Inv C n s1 \<and>
        code s1 = (code st \<noteq> odd (count_sep ''``'' frag)) \<and>
        parse_code highlight_syntax frag2 fn s1 = Some (Inr s2) \<and> Inv C n s2 \<and>
        code s2 = (code st \<noteq> odd (count_sep ''``'' frag + count_sep ''``'' frag2))"
    by blast
qed

theorem unmatched_delimiters_witness:
  "keeps code_tag 1 (text_filler ''span'') \<and> keeps code_tag 1 (text_filler ''code'') \<and>
   Inv code_tag 1 (reset (elem ''blockquote'')) \<and>
   parse_spoilers ''**unterminated'' (text_filler ''span'') (reset (elem ''blockquote'')) =
     Some (Inr ((reset (elem ''blockquote''))
       \<lparr>spoiler := True, parents := [[], [1]],
        tree := Node ''blockquote'' [] []
                 [Node ''span'' [] [] [],
                  Node ''del'' [] [] [Node ''span'' [] ''unterminated'' []]]\<rparr>)) \<and>
   parse_spoilers ''more text**'' (text_filler ''span'')
     ((reset (elem ''blockquote''))
       \<lparr>spoiler := True, parents := [[], [1]],
        tree := Node ''blockquote'' [] []
                 [Node ''span'' [] [] [],
                  Node ''del'' [] [] [Node ''span'' [] ''unterminated'' []]]\<rparr>) =
     Some (Inr ((reset (elem ''blockquote''))
       \<lparr>tree := Node ''blockquote'' [] []
                 [Node ''span'' [] [] [],
                  Node ''del'' [] []
                    [Node ''span'' [] ''unterminated'' [], Node ''span'' [] ''more text'' []],
                  Node ''span'' [] [] []]\<rparr>)) \<and>
   Inv code_tag 1 ((reset (elem ''blockquote''))
       \<lparr>tree := Node ''blockquote'' [] []
                 [Node ''span'' [] [] [],
                  Node ''del'' [] []
                    [Node ''span'' [] ''unterminated'' [], Node ''span'' [] ''more text'' []],
                  Node ''span'' [] [] []]\<rparr>)"
proof -
  let ?s0 = "reset (elem ''blockquote'')"
  let ?s1 = "?s0\<lparr>spoiler := True, parents := [[], [1]],
        tree := Node ''blockquote'' [] []
                 [Node ''span'' [] [] [],
                  Node ''del'' [] [] [Node ''span'' [] ''unterminated'' []]]\<rparr>"
  let ?s2 = "?s0\<lparr>tree := Node ''blockquote'' [] []
                 [Node ''span'' [] [] [],
                  Node ''del'' [] []
                    [Node ''span'' [] ''unterminated'' [], Node ''span'' [] ''more text'' []],
                  Node ''span'' [] [] []]\<rparr>"
  have e1: "parse_spoilers ''**unterminated'' (text_filler ''span'') ?s0 = Some (Inr ?s1)"
    by code_simp
  have e2: "parse_spoilers ''more text**'' (text_filler ''span'') ?s1 = Some (Inr ?s2)"
    by code_simp
  note u = unmatched_delimiters[OF keeps_span keeps_code Inv_reset_blockquote,
      of "''**unterminated''" "''more text**''"]
  from u[THEN conjunct1]
  obtain s1 s2 where s: "parse_spoilers ''**unterminated'' (text_filler ''span'') ?s0 = Some (Inr s1)"
    "parse_spoilers ''more text**'' (text_filler ''span'') s1 = Some (Inr s2)"
    "Inv code_tag 1 s2" by (elim exE conjE)
  from s(1) e1 have "s1 = ?s1" by (simp only: option.inject sum.inject)
  with s(2) e2 have "s2 = ?s2" by (simp only: option.inject sum.inject)
  with s(3) have i2: "Inv code_tag 1 ?s2" by (simp only:)
  show ?thesis
    by (intro conjI) (rule keeps_span keeps_code Inv_reset_blockquote e1 e2 i2)+
qed



text \<open>
  C9 (stack depth and flags). If the stack depth is \<open>d\<close> plus the number of flags set
  among spoiler, bold and italic (with the three flags unset: if the depth is \<open>d\<close>),
  then after every sequence of toggles of the four levels that all return it is again
  \<open>d\<close> plus the number of those flags set. The code toggle flips \<^verbatim>\<open>state.code\<close> and
  changes neither the stack nor the tree. From a state that satisfies the invariant of
  the render pass every sequence of toggles does return.
\<close>

theorem stack_depth_invariant:
  assumes "length (parents st) = d + open_count st" and "run_toggles ls st = Inr st'"
  shows "length (parents st') = d + open_count st' \<and>
         (\<not> spoiler st \<and> \<not> bold st \<and> \<not> italic st \<longrightarrow> length (parents st) = d) \<and>
         code_toggle st = Inr (st\<lparr>code := \<not> code st\<rparr>) \<and>
         parents (st\<lparr>code := \<not> code st\<rparr>) = parents st \<and>
         tree (st\<lparr>code := \<not> code st\<rparr>) = tree st \<and>
         open_count (st\<lparr>code := \<not> code st\<rparr>) = open_count st \<and>
         (Inv C n st \<longrightarrow> (\<exists>s. run_toggles ls' st = Inr s))"
proof (intro conjI impI)
  show "length (parents st') = d + open_count st'"
    using run_toggles_depth[OF assms(2,1)] .
  show "code_toggle st = Inr (st\<lparr>code := \<not> code st\<rparr>)" by (simp add: code_toggle_def)
  show "open_count (st\<lparr>code := \<not> code st\<rparr>) = open_count st" by (simp add: open_count_def)
  {
    assume "\<not> spoiler st \<and> \<not> bold st \<and> \<not> italic st"
    then show "length (parents st) = d" using assms(1) by (simp add: open_count_def)
  }
  assume "Inv C n st"
  from run_toggles_Inv[OF this, of ls'] show "\<exists>s. run_toggles ls' st = Inr s" by blast
qed simp_all

theorem stack_depth_invariant_witness:
  "length (parents (reset (elem ''blockquote''))) = 1 + open_count (reset (elem ''blockquote'')) \<and>
   run_toggles [Spoiler, Italic, Code, Bold, Spoiler, Italic] (reset (elem ''blockquote'')) =
     Inr \<lparr>spoiler = False, quote = False, code = True, bold = True,
        italic = False, have_syncwatch = False, successive_newlines = 0,
        dice_index = 0, parents = [[], [1]],
        tree =
          Node ''blockquote'' [] []
           [Node ''del'' [] []
             [Node ''i'' [] [] [], Node ''b'' [] [] [Node ''i'' [] [] []]],
            Node ''b'' [] [] [Node ''i'' [] [] []]]\<rparr> \<and>
   length [[], [1::nat]] = 1 + open_count \<lparr>spoiler = False, quote = False, code = True, bold = True,
        italic = False, have_syncwatch = False, successive_newlines = 0,
        dice_index = 0, parents = [[], [1]],
        tree =
          Node ''blockquote'' [] []
           [Node ''del'' [] []
             [Node ''i'' [] [] [], Node ''b'' [] [] [Node ''i'' [] [] []]],
            Node ''b'' [] [] [Node ''i'' [] [] []]]\<rparr>"
proof -
  have r: "run_toggles [Spoiler, Italic, Code, Bold, Spoiler, Italic] (reset (elem ''blockquote'')) =
     Inr \<lparr>spoiler = False, quote = False, code = True, bold = True,
        italic = False, have_syncwatch = False, successive_newlines = 0,
        dice_index = 0, parents = [[], [1]],
        tree =
          Node ''blockquote'' [] []
           [Node ''del'' [] []
             [Node ''i'' [] [] [], Node ''b'' [] [] [Node ''i'' [] [] []]],
            Node ''b'' [] [] [Node ''i'' [] [] []]]\<rparr>"
    by (simp add: spoiler_toggle_def bold_toggle_def italic_toggle_def code_toggle_def
          ascend_def append_node_def reset_def elem_def Let_def)
  have d: "length (parents (reset (elem ''blockquote''))) = 1 + open_count (reset (elem ''blockquote''))"
    by (simp add: reset_def open_count_def)
  from stack_depth_invariant[OF d r] r d show ?thesis by simp
qed

text \<open>
  C10 (termination of the scan). For every fragment and every non-empty separator the
  loop of \<^verbatim>\<open>parse_string\<close> returns, whenever its two callables return: after a found
  occurrence the remaining fragment is shorter by at least the length of the separator.
  The toggle is invoked as often as the separator occurs, the filler once more, and
  the number of toggles times the length of the separator is at most the length of the
  fragment.
\<close>

theorem parse_string_terminates:
  assumes "sep \<noteq> []" and "\<And>f s. filler f s \<noteq> None" and "\<And>s. on_match s \<noteq> None"
  shows "(\<exists>r. parse_string frag sep filler on_match st = Some r) \<and>
         (\<forall>i. find_str frag sep = Some i \<longrightarrow>
               length (drop (i + length sep) frag) + length sep \<le> length frag \<and>
               length (drop (i + length sep) frag) < length frag) \<and>
         (\<exists>tr. parse_string frag sep log_filler log_toggle [] = Some (Inr tr) \<and>
               toggle_count tr = count_sep sep frag \<and>
               length (filler_args tr) = count_sep sep frag + 1 \<and>
               toggle_count tr * length sep \<le> length frag)"
proof (intro conjI allI impI)
  have "run_pieces filler on_match (pieces sep frag) st \<noteq> None"
    using run_pieces_returns[OF assms(2,3) pieces_not_Nil] .
  then show "\<exists>r. parse_string frag sep filler on_match st = Some r"
    using parse_string_pieces[OF assms(1), of frag filler on_match st] by auto
next
  fix i assume "find_str frag sep = Some i"
  from find_str_SomeD[OF this]
  show "length (drop (i + length sep) frag) + length sep \<le> length frag" by simp
next
  fix i assume "find_str frag sep = Some i"
  from find_str_shrinks[OF assms(1) this]
  show "length (drop (i + length sep) frag) < length frag" .
next
  have "parse_string frag sep log_filler log_toggle [] = Some (Inr (calls (pieces sep frag)))"
    by (simp add: parse_string_pieces[OF assms(1)] run_pieces_log[OF pieces_not_Nil])
  moreover have "toggle_count (calls (pieces sep frag)) = count_sep sep frag"
    by (simp add: toggle_count_calls length_pieces[OF assms(1)])
  moreover have "length (filler_args (calls (pieces sep frag))) = count_sep sep frag + 1"
    by (simp add: filler_args_calls length_pieces[OF assms(1)])
  ultimately show "\<exists>tr. parse_string frag sep log_filler log_toggle [] = Some (Inr tr) \<and>
               toggle_count tr = count_sep sep frag \<and>
               length (filler_args tr) = count_sep sep frag + 1 \<and>
               toggle_count tr * length sep \<le> length frag"
    using count_sep_bound[of sep frag] by simp
qed


theorem parse_string_terminates_witness:
  "''**'' \<noteq> [] \<and> (\<exists>r. parse_string ''a**b'' ''**'' log_filler log_toggle [] = Some r) \<and>
   find_str ''a**b'' ''**'' = Some 1 \<and> length (drop (1 + length ''**'') ''a**b'') < length ''a**b''"
  using parse_string_terminates[of "''**''" log_filler log_toggle "''a**b''" "[]"]
  by (simp add: log_filler_def log_toggle_def)

end
